theory Spec2Isabelle
  imports Main "HOL-Library.Word"
begin

section \<open>The word display subsystem of Catime (words\_display.c)\<close>

text \<open>
  The module keeps a table of vocabulary entries parsed from an embedded
  tab-separated resource, a cursor into the table that a timer advances, and a
  formatter that renders the current entry into a caller-supplied buffer of
  fixed capacity.

  Conventions of the embedding:
  \<^item> \<open>wchar_t\<close> is the 16-bit character of Windows; \<open>int\<close> and \<open>DWORD\<close> are
    32 bits wide. Both integer types are \<open>32 word\<close>: a \<open>DWORD\<close> is compared
    with \<open><\<close> and \<open>\<le>\<close>, an \<open>int\<close> with the signed \<open><s\<close> and \<open>\<le>s\<close>.
    Arithmetic on either wraps around; where C leaves a signed overflow
    undefined, the theorems say when the operands exclude it. A \<open>size_t\<close> is
    a natural number.
  \<^item> A C string is the list of the characters stored at its address; reading
    it stops at the first NUL (\<open>cstr\<close>), as every \<open>wcs\<close> function does.
  \<^item> An array with a known extent (the output buffer, the local \<open>tmp\<close>) is a
    list of that length. An access outside the extent is undefined behaviour in
    C; here it is the value \<open>None\<close>.
  \<^item> A pointer that the code tests against \<open>NULL\<close> is an \<open>option\<close>.
  \<^item> The heap allocator is taken to satisfy every request of \<open>malloc\<close> and
    \<open>calloc\<close>.
\<close>

type_synonym wchar = "16 word"
type_synonym byte = "8 word"
type_synonym c_int = "32 word"
type_synonym DWORD = "32 word"

subsection \<open>Character constants\<close>

definition SPACE :: wchar where "SPACE = 0x20"
definition TAB :: wchar where "TAB = 0x09"
definition CR :: wchar where "CR = 0x0D"
definition NL :: wchar where "NL = 0x0A"
definition LBRACKET :: wchar where "LBRACKET = 0x5B"
definition RBRACKET :: wchar where "RBRACKET = 0x5D"
definition MIDDLE_DOT :: wchar where "MIDDLE_DOT = 0xB7"
definition ELLIPSIS :: wchar where "ELLIPSIS = 0x2026"

subsection \<open>C strings\<close>

definition cstr :: "wchar list \<Rightarrow> wchar list" where
  "cstr s = takeWhile (\<lambda>c. c \<noteq> 0) s"

text \<open>\<open>s[0]\<close> of a C string: the terminator when the string is empty.\<close>

definition first_char :: "wchar list \<Rightarrow> wchar" where
  "first_char s = (case s of [] \<Rightarrow> 0 | c # _ \<Rightarrow> c)"

text \<open>\<open>(int)wcslen(s)\<close>: the conversion of a \<open>size_t\<close> to \<open>int\<close> keeps the low 32 bits.\<close>

definition int_of_size_t :: "nat \<Rightarrow> c_int" where
  "int_of_size_t n = word_of_nat n"

subsection \<open>Internal data\<close>

record WordEntry =
  name :: "wchar list option"
  uk :: "wchar list option"
  us :: "wchar list option"
  trans :: "wchar list option"

record store =
  g_words :: "WordEntry list option"
  g_wordCount :: c_int
  g_currentIndex :: c_int
  g_nextSwitchTick :: DWORD
  g_initialized :: bool

text \<open>The values of the globals when the program starts.\<close>

definition initial_store :: store where
  "initial_store =
     \<lparr>g_words = None, g_wordCount = 0, g_currentIndex = - 1,
      g_nextSwitchTick = 0, g_initialized = False\<rparr>"

record config =
  WORD_DISPLAY_ENABLED :: bool
  WORD_SWITCH_INTERVAL_SEC :: c_int
  WORD_SHOW_PHONETIC :: bool
  WORD_PHONETIC_MODE :: c_int
  WORD_SHOW_CHINESE :: bool
  WORD_CHINESE_MAX_LEN :: c_int

text \<open>
  The collaborators outside the module: what \<open>LoadResourceToUtf8Buffer\<close>
  obtains from the resource API (\<open>None\<close> when any of its steps fails), the
  conversion \<open>Utf8ToWideAlloc\<close> of utils/string\_convert (\<open>None\<close> for a
  \<open>NULL\<close> result), and the reading of \<open>GetTickCount\<close> taken inside
  \<open>WordsDisplay_Init\<close>.
\<close>

record env =
  LoadResourceToUtf8Buffer :: "byte list option"
  Utf8ToWideAlloc :: "byte list \<Rightarrow> wchar list option"
  GetTickCount :: DWORD

definition FreeWords :: "store \<Rightarrow> store" where
  "FreeWords s =
     (if g_words s = None then s
      else s\<lparr>g_words := None, g_wordCount := 0, g_currentIndex := - 1\<rparr>)"

subsection \<open>TSV parsing\<close>

definition DupWide :: "wchar list option \<Rightarrow> wchar list option" where
  "DupWide s = (case s of None \<Rightarrow> None | Some t \<Rightarrow> Some (cstr t))"

text \<open>The first loop of \<open>TrimWideInPlace\<close>: overwrite trailing blanks with NUL.\<close>

function trim_trailing :: "wchar list \<Rightarrow> wchar list" where
  "trim_trailing s =
     (if s \<noteq> [] \<and> (last s = SPACE \<or> last s = TAB \<or> last s = CR \<or> last s = NL)
      then trim_trailing (butlast s) else s)"
  by pat_completeness auto
termination
  by (relation "measure length") auto

declare trim_trailing.simps [simp del]

text \<open>The second loop: advance \<open>p\<close> over leading spaces and tabs.\<close>

fun skip_leading :: "wchar list \<Rightarrow> wchar list" where
  "skip_leading [] = []"
| "skip_leading (c # cs) = (if c = SPACE \<or> c = TAB then skip_leading cs else c # cs)"

definition TrimWideInPlace :: "wchar list \<Rightarrow> wchar list" where
  "TrimWideInPlace s = skip_leading (trim_trailing (cstr s))"

text \<open>
  \<open>wcstok_s(str, L"\n", &ctx)\<close> on the rest of the text: skip newlines, fail
  at the end of the text, otherwise return the token up to the next newline
  and the text after that newline.
\<close>

definition wcstok_s :: "wchar list \<Rightarrow> (wchar list \<times> wchar list) option" where
  "wcstok_s str =
     (let s = dropWhile (\<lambda>c. c = NL) str in
      if s = [] then None
      else Some (takeWhile (\<lambda>c. c \<noteq> NL) s, drop 1 (dropWhile (\<lambda>c. c \<noteq> NL) s)))"

text \<open>
  The field loop \<open>while (*p && fi < 4)\<close>: \<open>fi\<close> fields have been started,
  \<open>cur\<close> holds the characters of the last one that \<open>p\<close> has passed. A tab
  ends the field while fewer than four have been started; the fourth field
  keeps the rest of the line.
\<close>

fun split_fields :: "nat \<Rightarrow> wchar list \<Rightarrow> wchar list \<Rightarrow> wchar list list" where
  "split_fields fi cur [] = [cur]"
| "split_fields fi cur (c # cs) =
     (if fi < 4 then
        (if c = TAB then cur # split_fields (fi + 1) [] cs
         else split_fields fi (cur @ [c]) cs)
      else [cur @ c # cs])"

text \<open>The body of the line loop; \<open>arr\<close> is \<open>arr[0..count)\<close>.\<close>

definition parse_line :: "wchar list \<Rightarrow> WordEntry list \<Rightarrow> WordEntry list" where
  "parse_line line arr =
     (let fields = map TrimWideInPlace (split_fields 1 [] line);
          fi = length fields
      in if first_char (fields ! 0) \<noteq> 0 then
           (let e = \<lparr>name = DupWide (Some (fields ! 0)),
                     uk = (if fi > 1 \<and> first_char (fields ! 1) \<noteq> 0
                           then DupWide (Some (fields ! 1)) else DupWide (Some [])),
                     us = (if fi > 2 \<and> first_char (fields ! 2) \<noteq> 0
                           then DupWide (Some (fields ! 2)) else DupWide (Some [])),
                     trans = (if fi > 3 \<and> first_char (fields ! 3) \<noteq> 0
                           then DupWide (Some (fields ! 3)) else DupWide (Some []))\<rparr>
            in if name e \<noteq> None \<and> uk e \<noteq> None \<and> us e \<noteq> None \<and> trans e \<noteq> None
               then arr @ [e] else arr)
         else arr)"

function line_loop :: "wchar list \<Rightarrow> WordEntry list \<Rightarrow> WordEntry list" where
  "line_loop str arr =
     (case wcstok_s str of
        None \<Rightarrow> arr
      | Some (line, rest) \<Rightarrow> line_loop rest (parse_line line arr))"
  by pat_completeness auto
termination
proof (relation "measure (\<lambda>(str, arr). length str)")
  show "wf (measure (\<lambda>(str, arr). length str))" by simp
next
  fix str :: "wchar list" and arr :: "WordEntry list" and x2 line rest
  assume a: "wcstok_s str = Some x2" and x2: "(line, rest) = x2"
  define s where "s = dropWhile (\<lambda>c. c = NL) str"
  from a x2 have ne: "s \<noteq> []" and r: "rest = drop 1 (dropWhile (\<lambda>c. c \<noteq> NL) s)"
    by (auto simp: wcstok_s_def s_def Let_def split: if_splits)
  have "length rest < length s"
  proof (cases "dropWhile (\<lambda>c. c \<noteq> NL) s = []")
    case True
    with ne r show ?thesis by simp
  next
    case False
    then have "length rest < length (dropWhile (\<lambda>c. c \<noteq> NL) s)"
      using r by (cases "dropWhile (\<lambda>c. c \<noteq> NL) s") auto
    also have "\<dots> \<le> length s" by (rule length_dropWhile_le)
    finally show ?thesis .
  qed
  also have "length s \<le> length str"
    unfolding s_def by (rule length_dropWhile_le)
  finally show "((rest, parse_line line arr), (str, arr)) \<in> measure (\<lambda>(str, arr). length str)"
    by simp
qed

declare line_loop.simps [simp del]

text \<open>\<open>for (p = wide; *p; p++) if (*p == L'\n') lines++;\<close>\<close>

fun count_lines :: "wchar list \<Rightarrow> c_int \<Rightarrow> c_int" where
  "count_lines [] lines = lines"
| "count_lines (c # cs) lines = count_lines cs (if c = NL then lines + 1 else lines)"

text \<open>
  The places where \<open>ParseTsvToWords\<close> returns \<open>FALSE\<close>: the conversion
  returned \<open>NULL\<close>, the line count is below the floor, no row was usable.
  Its two other tests cannot fail here: \<open>utf8\<close> is the buffer that
  \<open>WordsDisplay_Init\<close> has just loaded, and \<open>calloc\<close> succeeds.
\<close>

datatype parse_error = ConversionFailed | InsufficientData | NoUsableEntries

definition ParseTsvToWords :: "env \<Rightarrow> byte list \<Rightarrow> store \<Rightarrow> parse_error + store" where
  "ParseTsvToWords e utf8 s =
     (case Utf8ToWideAlloc e utf8 of
        None \<Rightarrow> Inl ConversionFailed
      | Some wide \<Rightarrow>
          (let lines = count_lines (cstr wide) 0 in
           if lines <s 10 then Inl InsufficientData
           else
             (let arr = line_loop (cstr wide) [];
                  count = (word_of_nat (length arr) :: c_int)
              in if count \<le>s 0 then Inl NoUsableEntries
                 else Inr (s\<lparr>g_words := Some arr, g_wordCount := count,
                              g_currentIndex := 0\<rparr>))))"

subsection \<open>Public API: lifecycle and rotation\<close>

definition WordsDisplay_Init :: "config \<Rightarrow> env \<Rightarrow> store \<Rightarrow> bool \<times> store" where
  "WordsDisplay_Init cfg e s =
     (if g_initialized s then (True, s)
      else
        (let s1 = s\<lparr>g_initialized := True\<rparr> in
         case LoadResourceToUtf8Buffer e of
           None \<Rightarrow> (False, s1)
         | Some buf \<Rightarrow>
             (case ParseTsvToWords e buf s1 of
                Inl err \<Rightarrow> (False, s1)
              | Inr s2 \<Rightarrow>
                  (let tick = GetTickCount e;
                       s3 = (if 0 <s g_wordCount s2
                             then s2\<lparr>g_currentIndex := tick mod g_wordCount s2\<rparr>
                             else s2);
                       s4 = s3\<lparr>g_nextSwitchTick :=
                               tick + (if 0 <s WORD_SWITCH_INTERVAL_SEC cfg
                                       then WORD_SWITCH_INTERVAL_SEC cfg * 1000 else 0)\<rparr>
                   in (True, s4)))))"

definition WordsDisplay_Shutdown :: "store \<Rightarrow> store" where
  "WordsDisplay_Shutdown s = (FreeWords s)\<lparr>g_initialized := False\<rparr>"

text \<open>\<open>if (!g_initialized) WordsDisplay_Init();\<close> with the result ignored.\<close>

definition lazy_init :: "config \<Rightarrow> env \<Rightarrow> store \<Rightarrow> store" where
  "lazy_init cfg e s = (if \<not> g_initialized s then snd (WordsDisplay_Init cfg e s) else s)"

definition SetCurrentIndex :: "c_int \<Rightarrow> store \<Rightarrow> bool \<times> store" where
  "SetCurrentIndex idx s =
     (if g_words s = None \<or> g_wordCount s \<le>s 0 then (False, s)
      else
        (let idx1 = (if idx <s 0 then 0 else idx);
             idx2 = (if g_wordCount s \<le>s idx1 then 0 else idx1)
         in if g_currentIndex s \<noteq> idx2 then (True, s\<lparr>g_currentIndex := idx2\<rparr>)
            else (False, s)))"

text \<open>\<open>now\<close> is the reading of \<open>GetTickCount\<close> that \<open>WordsDisplay_Next\<close> takes itself.\<close>

definition WordsDisplay_Next :: "config \<Rightarrow> env \<Rightarrow> DWORD \<Rightarrow> store \<Rightarrow> bool \<times> store" where
  "WordsDisplay_Next cfg e now s0 =
     (let s = lazy_init cfg e s0 in
      if g_words s = None \<or> g_wordCount s \<le>s 0 then (False, s)
      else
        (let (changed, s1) = SetCurrentIndex (g_currentIndex s + 1) s;
             s2 = (if 0 <s WORD_SWITCH_INTERVAL_SEC cfg
                   then s1\<lparr>g_nextSwitchTick := now + WORD_SWITCH_INTERVAL_SEC cfg * 1000\<rparr>
                   else s1)
         in (changed, s2)))"

definition WordsDisplay_Tick :: "config \<Rightarrow> env \<Rightarrow> DWORD \<Rightarrow> store \<Rightarrow> bool \<times> store" where
  "WordsDisplay_Tick cfg e nowTick s0 =
     (if \<not> WORD_DISPLAY_ENABLED cfg then (False, s0)
      else
        (let s = lazy_init cfg e s0 in
         if g_words s = None \<or> g_wordCount s \<le>s 0 then (False, s)
         else if WORD_SWITCH_INTERVAL_SEC cfg \<le>s 0 then (False, s)
         else if g_nextSwitchTick s \<le> nowTick then
           (let (changed, s1) = SetCurrentIndex (g_currentIndex s + 1) s
            in (changed, s1\<lparr>g_nextSwitchTick := nowTick + WORD_SWITCH_INTERVAL_SEC cfg * 1000\<rparr>))
         else (False, s)))"

subsection \<open>Formatting\<close>

text \<open>\<open>wcslen\<close> on an array: \<open>None\<close> when no terminator lies inside it.\<close>

definition wcslen :: "wchar list \<Rightarrow> nat option" where
  "wcslen buf = (if 0 \<in> set buf then Some (length (cstr buf)) else None)"

text \<open>Store the characters \<open>xs\<close> at \<open>buf[i]\<close>, \<open>buf[i + 1]\<close>, \<dots>\<close>

definition store_at :: "wchar list \<Rightarrow> nat \<Rightarrow> wchar list \<Rightarrow> wchar list option" where
  "store_at buf i xs =
     (if i + length xs \<le> length buf
      then Some (take i buf @ xs @ drop (i + length xs) buf) else None)"

text \<open>
  \<open>wcsncat(dest, src, n)\<close> appends at most \<open>n\<close> characters of \<open>src\<close> at the
  terminator of \<open>dest\<close> and then a NUL.
\<close>

definition wcsncat :: "wchar list \<Rightarrow> wchar list \<Rightarrow> nat \<Rightarrow> wchar list option" where
  "wcsncat dest src n =
     (case wcslen dest of
        None \<Rightarrow> None
      | Some d \<Rightarrow> store_at dest d (take n (cstr src) @ [0]))"

text \<open>
  \<open>wcsncpy(dest, src, n)\<close> writes exactly \<open>n\<close> characters: those of \<open>src\<close>,
  then NULs when \<open>src\<close> is shorter.
\<close>

definition wcsncpy :: "wchar list \<Rightarrow> wchar list \<Rightarrow> nat \<Rightarrow> wchar list option" where
  "wcsncpy dest src n =
     store_at dest 0 (take n (cstr src) @ replicate (n - length (cstr src)) 0)"

text \<open>\<open>out\<close> is the buffer of the caller, which has tested the pointer already.\<close>

definition AppendWithLimit :: "wchar list \<Rightarrow> nat \<Rightarrow> wchar list option \<Rightarrow> wchar list option" where
  "AppendWithLimit out outChars s =
     (if outChars = 0 then Some out
      else case s of
        None \<Rightarrow> Some out
      | Some src \<Rightarrow>
          (case wcslen out of
             None \<Rightarrow> None
           | Some cur \<Rightarrow>
               if outChars - 1 \<le> cur then Some out
               else wcsncat out src (outChars - 1 - cur)))"

definition AppendCnTruncated ::
  "config \<Rightarrow> wchar list \<Rightarrow> nat \<Rightarrow> wchar list option \<Rightarrow> wchar list option" where
  "AppendCnTruncated cfg out outChars cn =
     (case cn of
        None \<Rightarrow> Some out
      | Some c \<Rightarrow>
          if first_char c = 0 then Some out
          else if WORD_CHINESE_MAX_LEN cfg \<le>s 0 then AppendWithLimit out outChars cn
          else
            (let max = WORD_CHINESE_MAX_LEN cfg;
                 len = int_of_size_t (length (cstr c))
             in if len \<le>s max then AppendWithLimit out outChars cn
                else
                  (let copy = (if 240 <s max then 240 else max) in
                   case wcsncpy (replicate 256 0) c (unat copy) of
                     None \<Rightarrow> None
                   | Some tmp1 \<Rightarrow>
                       (case store_at tmp1 (unat copy) [0] of
                          None \<Rightarrow> None
                        | Some tmp \<Rightarrow>
                            (case AppendWithLimit out outChars (Some tmp) of
                               None \<Rightarrow> None
                             | Some out1 \<Rightarrow>
                                 AppendWithLimit out1 outChars (Some [ELLIPSIS]))))))"

text \<open>The three appends that put one transcription in brackets.\<close>

definition append_phonetic :: "wchar list \<Rightarrow> nat \<Rightarrow> wchar list option \<Rightarrow> wchar list option" where
  "append_phonetic out outChars ph =
     (case ph of
        None \<Rightarrow> Some out
      | Some p \<Rightarrow>
          if first_char p = 0 then Some out
          else
            (case AppendWithLimit out outChars (Some [SPACE, LBRACKET]) of
               None \<Rightarrow> None
             | Some out1 \<Rightarrow>
                 (case AppendWithLimit out1 outChars ph of
                    None \<Rightarrow> None
                  | Some out2 \<Rightarrow> AppendWithLimit out2 outChars (Some [RBRACKET]))))"

text \<open>The appends of \<open>WordsDisplay_FormatSuffix\<close> once the entry \<open>e\<close> is selected.\<close>

definition format_entry :: "config \<Rightarrow> WordEntry \<Rightarrow> wchar list \<Rightarrow> nat \<Rightarrow> wchar list option" where
  "format_entry cfg e out outChars =
     (case AppendWithLimit out outChars (Some [SPACE, SPACE]) of
        None \<Rightarrow> None
      | Some out1 \<Rightarrow>
     (case AppendWithLimit out1 outChars
             (Some (case name e of None \<Rightarrow> [] | Some n \<Rightarrow> n)) of
        None \<Rightarrow> None
      | Some out2 \<Rightarrow>
     (case (if WORD_SHOW_PHONETIC cfg then
              (if WORD_PHONETIC_MODE cfg = 2 then
                 (case append_phonetic out2 outChars (uk e) of
                    None \<Rightarrow> None
                  | Some out2a \<Rightarrow> append_phonetic out2a outChars (us e))
               else if WORD_PHONETIC_MODE cfg = 1 then append_phonetic out2 outChars (us e)
               else append_phonetic out2 outChars (uk e))
            else Some out2) of
        None \<Rightarrow> None
      | Some out3 \<Rightarrow>
          if WORD_SHOW_CHINESE cfg then
            (case trans e of
               None \<Rightarrow> Some out3
             | Some t \<Rightarrow>
                 if first_char t = 0 then Some out3
                 else
                   (case AppendWithLimit out3 outChars (Some [SPACE, MIDDLE_DOT, SPACE]) of
                      None \<Rightarrow> None
                    | Some out4 \<Rightarrow> AppendCnTruncated cfg out4 outChars (trans e)))
          else Some out3)))"

text \<open>\<open>&g_words[g_currentIndex]\<close>: the entry, if the index lies inside the array.\<close>

definition entry_at :: "WordEntry list \<Rightarrow> c_int \<Rightarrow> WordEntry option" where
  "entry_at ws idx =
     (if 0 \<le> sint idx \<and> nat (sint idx) < length ws then Some (ws ! nat (sint idx)) else None)"

text \<open>
  The result is the buffer (\<open>None\<close> for a \<open>NULL\<close> pointer, as passed in) and the
  store; no result when an access left an array.
\<close>

definition WordsDisplay_FormatSuffix ::
  "config \<Rightarrow> env \<Rightarrow> wchar list option \<Rightarrow> nat \<Rightarrow> store \<Rightarrow> (wchar list option \<times> store) option" where
  "WordsDisplay_FormatSuffix cfg e out outChars s0 =
     (case out of
        None \<Rightarrow> Some (None, s0)
      | Some buf \<Rightarrow>
          if outChars = 0 then Some (Some buf, s0)
          else
            (case store_at buf 0 [0] of
               None \<Rightarrow> None
             | Some b0 \<Rightarrow>
                 if \<not> WORD_DISPLAY_ENABLED cfg then Some (Some b0, s0)
                 else
                   (let s = lazy_init cfg e s0 in
                    case g_words s of
                      None \<Rightarrow> Some (Some b0, s)
                    | Some ws \<Rightarrow>
                        if g_wordCount s \<le>s 0 \<or> g_currentIndex s <s 0
                           \<or> g_wordCount s \<le>s g_currentIndex s
                        then Some (Some b0, s)
                        else
                          (case entry_at ws (g_currentIndex s) of
                             None \<Rightarrow> None
                           | Some w \<Rightarrow>
                               map_option (\<lambda>b. (Some b, s)) (format_entry cfg w b0 outChars)))))"

subsection \<open>Properties of the store\<close>

text \<open>The current index selects one of the entries, whenever there is one.\<close>

definition index_in_range :: "store \<Rightarrow> bool" where
  "index_in_range s =
     (g_words s \<noteq> None \<and> 0 <s g_wordCount s \<longrightarrow>
        0 \<le>s g_currentIndex s \<and> g_currentIndex s <s g_wordCount s)"

text \<open>The array holds the entries that \<open>g_wordCount\<close> counts.\<close>

definition count_in_array :: "store \<Rightarrow> bool" where
  "count_in_array s =
     (case g_words s of None \<Rightarrow> True | Some ws \<Rightarrow> sint (g_wordCount s) \<le> int (length ws))"

text \<open>
  The buffer \<open>out\<close> has the extent and, from index \<open>outChars\<close> on, the
  contents of the buffer \<open>out0\<close>, and holds a terminator below \<open>outChars\<close>.
\<close>

definition within_capacity :: "wchar list \<Rightarrow> nat \<Rightarrow> wchar list \<Rightarrow> bool" where
  "within_capacity out0 outChars out =
     (length out = length out0 \<and> drop outChars out = drop outChars out0
      \<and> (case wcslen out of None \<Rightarrow> False | Some k \<Rightarrow> k < outChars))"

subsection \<open>Lines, as the specification counts them\<close>

text \<open>
  The reading of the specification, "the input is split into lines on
  \<open>\n\<close>": the pieces between the newlines. It is not part of the program.
\<close>

fun spec_split :: "wchar list \<Rightarrow> wchar list \<Rightarrow> wchar list list" where
  "spec_split cur [] = [cur]"
| "spec_split cur (c # cs) =
     (if c = NL then cur # spec_split [] cs else spec_split (cur @ [c]) cs)"

definition spec_lines :: "wchar list \<Rightarrow> wchar list list" where
  "spec_lines text = spec_split [] text"

subsection \<open>Concrete inputs\<close>

text \<open>The entry of the header's example: abandon, its transcription, its translation.\<close>

definition sample_entry :: WordEntry where
  "sample_entry =
     \<lparr>name = Some [0x61, 0x62, 0x61, 0x6E, 0x64, 0x6F, 0x6E],
      uk = Some [0x259, 0x2C8, 0x62, 0xE6, 0x6E, 0x64, 0x259, 0x6E],
      us = Some [],
      trans = Some [0x653E, 0x5F03, 0xFF1B, 0x629B, 0x5F03]\<rparr>"

definition sample_config :: config where
  "sample_config =
     \<lparr>WORD_DISPLAY_ENABLED = True, WORD_SWITCH_INTERVAL_SEC = 20,
      WORD_SHOW_PHONETIC = True, WORD_PHONETIC_MODE = 0,
      WORD_SHOW_CHINESE = True, WORD_CHINESE_MAX_LEN = 2\<rparr>"

text \<open>Three entries, the cursor on the last one, the deadline at tick 1000.\<close>

definition sample_store :: store where
  "sample_store =
     \<lparr>g_words = Some [sample_entry, sample_entry, sample_entry], g_wordCount = 3,
      g_currentIndex = 2, g_nextSwitchTick = 1000, g_initialized = True\<rparr>"

text \<open>A resource of ten rows \<open>a\<close>, each ended by a newline.\<close>

definition sample_resource :: "byte list" where
  "sample_resource = concat (replicate 10 [0x61, 0x0A])"

text \<open>Ten rows \<open>a\<close> separated by nine newlines; the last row has no newline.\<close>

definition ten_rows_resource :: "byte list" where
  "ten_rows_resource = concat (replicate 9 [0x61, 0x0A]) @ [0x61]"

text \<open>
  An environment that supplies the first resource, read as ASCII, and one
  whose resource is missing.
\<close>

definition sample_env :: env where
  "sample_env =
     \<lparr>LoadResourceToUtf8Buffer = Some sample_resource,
      Utf8ToWideAlloc = (\<lambda>b. Some (map ucast b)), GetTickCount = 12345\<rparr>"

definition failing_env :: env where
  "failing_env =
     \<lparr>LoadResourceToUtf8Buffer = None,
      Utf8ToWideAlloc = (\<lambda>b. Some (map ucast b)), GetTickCount = 12345\<rparr>"

section \<open>Signed 32-bit arithmetic\<close>


lemma sint_succ:
  fixes i n :: "32 word"
  assumes "i <s n"
  shows "sint (i + 1) = sint i + 1"
proof -
  have "sint i < sint n" using assms by (simp add: word_sless_alt)
  moreover have "sint n < 2 ^ 31" using sint_lt [of n] by simp
  moreover have "- (2 ^ 31) \<le> sint i" using sint_ge [of i] by simp
  ultimately have "signed_take_bit 31 (sint i + 1) = sint i + 1"
    by (intro signed_take_bit_int_eq_self) auto
  then show ?thesis by (simp add: sint_word_add)
qed

lemma sint_nonneg_uint:
  fixes w :: "32 word"
  assumes "0 \<le> sint w"
  shows "sint w = uint w"
proof -
  have "sint w < 2 ^ 32" using sint_lt [of w] by simp
  with assms have "take_bit 32 (sint w) = sint w"
    by (simp add: take_bit_int_eq_self)
  then show ?thesis by (simp add: uint_sint [of w])
qed

lemma uint_small_sint:
  fixes w :: "32 word"
  assumes "uint w < 2 ^ 31"
  shows "sint w = uint w"
proof -
  have "0 \<le> uint w" by simp
  moreover have "- (2 ^ 31) \<le> (0::int)" by simp
  ultimately have "- (2 ^ 31) \<le> uint w" by (rule order_trans [rotated])
  then have "signed_take_bit 31 (uint w) = uint w"
    using assms by (intro signed_take_bit_int_eq_self) auto
  then show ?thesis by (simp add: sint_uint [of w])
qed

lemma sint_of_nat_small:
  assumes "k < 2 ^ 31"
  shows "sint (word_of_nat k :: 32 word) = int k"
proof -
  have "unat (word_of_nat k :: 32 word) = k"
    using assms by (simp add: unat_of_nat)
  then have u: "uint (word_of_nat k :: 32 word) = int k"
    by (simp add: uint_nat)
  with assms have "uint (word_of_nat k :: 32 word) < 2 ^ 31" by simp
  then have "sint (word_of_nat k :: 32 word) = uint (word_of_nat k :: 32 word)"
    by (rule uint_small_sint)
  with u show ?thesis by simp
qed

section \<open>Rotation\<close>

text \<open>The index that one step of the rotation selects.\<close>

lemma SetCurrentIndex_step:
  assumes words: "g_words s = Some ws"
    and lo: "0 \<le>s g_currentIndex s" and hi: "g_currentIndex s <s g_wordCount s"
  shows "SetCurrentIndex (g_currentIndex s + 1) s =
           ((if g_currentIndex s + 1 = g_wordCount s then 0 else g_currentIndex s + 1) \<noteq> g_currentIndex s,
            s\<lparr>g_currentIndex := (if g_currentIndex s + 1 = g_wordCount s then 0 else g_currentIndex s + 1)\<rparr>)"
proof -
  let ?i = "g_currentIndex s" and ?n = "g_wordCount s"
  have s1: "sint (?i + 1) = sint ?i + 1" using hi by (rule sint_succ)
  have i0: "0 \<le> sint ?i" using lo by (simp add: word_sle_eq)
  have lt: "sint ?i < sint ?n" using hi by (simp add: word_sless_alt)
  have npos: "\<not> ?n \<le>s 0" using i0 lt by (simp add: word_sle_eq)
  have nneg: "\<not> ?i + 1 <s 0" using i0 s1 by (simp add: word_sless_alt)
  have ge: "?n \<le>s ?i + 1 \<longleftrightarrow> ?i + 1 = ?n"
  proof
    assume "?n \<le>s ?i + 1"
    then have "sint ?n = sint (?i + 1)" using lt s1 by (simp add: word_sle_eq)
    then have "sint (?i + 1) = sint ?n" by simp
    then show "?i + 1 = ?n" by (rule signed_word_eqI)
  next
    assume "?i + 1 = ?n" then show "?n \<le>s ?i + 1" by simp
  qed
  show ?thesis
    using words npos nneg ge by (auto simp: SetCurrentIndex_def Let_def)
qed

lemma step_index_mod:
  fixes i n :: "32 word"
  assumes lo: "0 \<le>s i" and hi: "i <s n"
  shows "sint (if i + 1 = n then 0 else i + 1) = (sint i + 1) mod sint n"
proof -
  have s1: "sint (i + 1) = sint i + 1" using hi by (rule sint_succ)
  have i0: "0 \<le> sint i" using lo by (simp add: word_sle_eq)
  have lt: "sint i < sint n" using hi by (simp add: word_sless_alt)
  show ?thesis
  proof (cases "i + 1 = n")
    case True
    then have "sint n = sint i + 1" using s1 by simp
    with True show ?thesis by simp
  next
    case False
    then have "sint (i + 1) \<noteq> sint n" using signed_word_eqI [of "i + 1" n] by auto
    with s1 lt have "sint i + 1 < sint n" by simp
    with i0 False s1 show ?thesis by simp
  qed
qed

lemma Tick_initialized:
  assumes enabled: "WORD_DISPLAY_ENABLED cfg"
    and init: "g_initialized s"
    and words: "g_words s = Some ws"
    and lo: "0 \<le>s g_currentIndex s" and hi: "g_currentIndex s <s g_wordCount s"
    and interval: "0 <s WORD_SWITCH_INTERVAL_SEC cfg"
  shows "WordsDisplay_Tick cfg e now s =
           (if g_nextSwitchTick s \<le> now then
              ((if g_currentIndex s + 1 = g_wordCount s then 0 else g_currentIndex s + 1)
                 \<noteq> g_currentIndex s,
               s\<lparr>g_currentIndex :=
                    (if g_currentIndex s + 1 = g_wordCount s then 0 else g_currentIndex s + 1),
                 g_nextSwitchTick := now + WORD_SWITCH_INTERVAL_SEC cfg * 1000\<rparr>)
            else (False, s))"
proof -
  have i0: "0 \<le> sint (g_currentIndex s)" using lo by (simp add: word_sle_eq)
  have lt: "sint (g_currentIndex s) < sint (g_wordCount s)" using hi by (simp add: word_sless_alt)
  have npos: "\<not> g_wordCount s \<le>s 0" using i0 lt by (simp add: word_sle_eq)
  have ipos: "\<not> WORD_SWITCH_INTERVAL_SEC cfg \<le>s 0"
    using interval by (simp add: word_sle_eq word_sless_alt)
  show ?thesis
    using enabled init words npos ipos SetCurrentIndex_step [OF words lo hi]
    by (simp add: WordsDisplay_Tick_def lazy_init_def)
qed

lemma Next_initialized:
  assumes init: "g_initialized s"
    and words: "g_words s = Some ws"
    and lo: "0 \<le>s g_currentIndex s" and hi: "g_currentIndex s <s g_wordCount s"
  shows "WordsDisplay_Next cfg e now s =
           ((if g_currentIndex s + 1 = g_wordCount s then 0 else g_currentIndex s + 1)
              \<noteq> g_currentIndex s,
            s\<lparr>g_currentIndex :=
                 (if g_currentIndex s + 1 = g_wordCount s then 0 else g_currentIndex s + 1),
              g_nextSwitchTick :=
                 (if 0 <s WORD_SWITCH_INTERVAL_SEC cfg
                  then now + WORD_SWITCH_INTERVAL_SEC cfg * 1000 else g_nextSwitchTick s)\<rparr>)"
proof -
  have i0: "0 \<le> sint (g_currentIndex s)" using lo by (simp add: word_sle_eq)
  have lt: "sint (g_currentIndex s) < sint (g_wordCount s)" using hi by (simp add: word_sless_alt)
  have npos: "\<not> g_wordCount s \<le>s 0" using i0 lt by (simp add: word_sle_eq)
  show ?thesis
    using init words npos SetCurrentIndex_step [OF words lo hi]
    by (simp add: WordsDisplay_Next_def lazy_init_def)
qed

lemma step_index_changes:
  fixes i n :: "32 word"
  assumes lo: "0 \<le>s i" and hi: "i <s n" and two: "2 \<le>s n"
  shows "(if i + 1 = n then 0 else i + 1) \<noteq> i"
proof (cases "i + 1 = n")
  case True
  have "sint (i + 1) = sint i + 1" using hi by (rule sint_succ)
  with True two have "1 \<le> sint i" by (simp add: word_sle_eq)
  then have "i \<noteq> 0" by auto
  with True show ?thesis by simp
next
  case False
  then show ?thesis by simp
qed

text \<open>
  C2. On an initialized store with entries whose index is in range, with the
  feature enabled and a positive interval, a tick at or past the deadline moves
  the index by one position modulo the number of entries, however far \<open>now\<close>
  lies beyond the deadline, and sets the deadline to \<open>now\<close> plus the interval
  in milliseconds (in 32-bit arithmetic). The flag returned tells whether the
  index changed.
\<close>

theorem Tick_advances_exactly_one_step:
  assumes enabled: "WORD_DISPLAY_ENABLED cfg"
    and init: "g_initialized s"
    and words: "g_words s = Some ws"
    and lo: "0 \<le>s g_currentIndex s" and hi: "g_currentIndex s <s g_wordCount s"
    and interval: "0 <s WORD_SWITCH_INTERVAL_SEC cfg"
    and due: "g_nextSwitchTick s \<le> now"
  shows "\<exists>idx. WordsDisplay_Tick cfg e now s =
            (idx \<noteq> g_currentIndex s,
             s\<lparr>g_currentIndex := idx,
               g_nextSwitchTick := now + WORD_SWITCH_INTERVAL_SEC cfg * 1000\<rparr>)
          \<and> sint idx = (sint (g_currentIndex s) + 1) mod sint (g_wordCount s)"
proof -
  let ?idx = "if g_currentIndex s + 1 = g_wordCount s then 0 else g_currentIndex s + 1"
  have "WordsDisplay_Tick cfg e now s =
          (?idx \<noteq> g_currentIndex s,
           s\<lparr>g_currentIndex := ?idx,
             g_nextSwitchTick := now + WORD_SWITCH_INTERVAL_SEC cfg * 1000\<rparr>)"
    using Tick_initialized [OF enabled init words lo hi interval, of e now] due by simp
  moreover have "sint ?idx = (sint (g_currentIndex s) + 1) mod sint (g_wordCount s)"
    by (rule step_index_mod [OF lo hi])
  ultimately show ?thesis by blast
qed

theorem Tick_advances_exactly_one_step_witness:
  "WORD_DISPLAY_ENABLED sample_config \<and> g_initialized sample_store
   \<and> g_words sample_store = Some [sample_entry, sample_entry, sample_entry]
   \<and> 0 \<le>s g_currentIndex sample_store
   \<and> g_currentIndex sample_store <s g_wordCount sample_store
   \<and> 0 <s WORD_SWITCH_INTERVAL_SEC sample_config
   \<and> g_nextSwitchTick sample_store \<le> 1000000
   \<and> WordsDisplay_Tick sample_config sample_env 1000000 sample_store =
        (True, sample_store\<lparr>g_currentIndex := 0, g_nextSwitchTick := 1020000\<rparr>)"
  using Tick_advances_exactly_one_step
    [of sample_config sample_store "[sample_entry, sample_entry, sample_entry]" 1000000 sample_env]
  by (simp add: sample_config_def sample_store_def WordsDisplay_Tick_def lazy_init_def
        SetCurrentIndex_def word_sle_eq word_sless_alt)

text \<open>
  C3. On an initialized store with entries whose index is in range,
  \<open>WordsDisplay_Next\<close> moves the index by one position modulo the number of
  entries, so from the last entry to entry 0. The flag returned tells whether
  the index changed, which it does whenever there are two entries or more.
  The deadline becomes \<open>now\<close> plus the interval when the interval is positive.
  On any store that holds no entry after the lazy initialization, the result is
  \<open>FALSE\<close>.
\<close>

theorem Next_wraps_and_reports_change:
  assumes init: "g_initialized s"
    and words: "g_words s = Some ws"
    and lo: "0 \<le>s g_currentIndex s" and hi: "g_currentIndex s <s g_wordCount s"
  shows "(\<exists>idx. WordsDisplay_Next cfg e now s =
            (idx \<noteq> g_currentIndex s,
             s\<lparr>g_currentIndex := idx,
               g_nextSwitchTick :=
                 (if 0 <s WORD_SWITCH_INTERVAL_SEC cfg
                  then now + WORD_SWITCH_INTERVAL_SEC cfg * 1000 else g_nextSwitchTick s)\<rparr>)
          \<and> sint idx = (sint (g_currentIndex s) + 1) mod sint (g_wordCount s)
          \<and> (g_currentIndex s = g_wordCount s - 1 \<longrightarrow> idx = 0)
          \<and> (2 \<le>s g_wordCount s \<longrightarrow> idx \<noteq> g_currentIndex s))
       \<and> (g_words (lazy_init cfg e s') = None \<or> g_wordCount (lazy_init cfg e s') \<le>s 0
            \<longrightarrow> WordsDisplay_Next cfg e now s' = (False, lazy_init cfg e s'))"
proof -
  let ?idx = "if g_currentIndex s + 1 = g_wordCount s then 0 else g_currentIndex s + 1"
  have "WordsDisplay_Next cfg e now s =
            (?idx \<noteq> g_currentIndex s,
             s\<lparr>g_currentIndex := ?idx,
               g_nextSwitchTick :=
                 (if 0 <s WORD_SWITCH_INTERVAL_SEC cfg
                  then now + WORD_SWITCH_INTERVAL_SEC cfg * 1000 else g_nextSwitchTick s)\<rparr>)"
    by (rule Next_initialized [OF init words lo hi])
  moreover have "sint ?idx = (sint (g_currentIndex s) + 1) mod sint (g_wordCount s)"
    by (rule step_index_mod [OF lo hi])
  moreover have "g_currentIndex s = g_wordCount s - 1 \<longrightarrow> ?idx = 0"
    by simp
  moreover have "2 \<le>s g_wordCount s \<longrightarrow> ?idx \<noteq> g_currentIndex s"
    using step_index_changes [OF lo hi] by blast
  moreover have "g_words (lazy_init cfg e s') = None \<or> g_wordCount (lazy_init cfg e s') \<le>s 0
            \<longrightarrow> WordsDisplay_Next cfg e now s' = (False, lazy_init cfg e s')"
    by (simp add: WordsDisplay_Next_def Let_def)
  ultimately show ?thesis by blast
qed

theorem Next_wraps_and_reports_change_witness:
  "g_initialized sample_store
   \<and> g_words sample_store = Some [sample_entry, sample_entry, sample_entry]
   \<and> 0 \<le>s g_currentIndex sample_store
   \<and> g_currentIndex sample_store <s g_wordCount sample_store
   \<and> g_currentIndex sample_store = g_wordCount sample_store - 1
   \<and> 2 \<le>s g_wordCount sample_store
   \<and> WordsDisplay_Next sample_config failing_env 5000 sample_store =
        (True, sample_store\<lparr>g_currentIndex := 0, g_nextSwitchTick := 25000\<rparr>)
   \<and> g_words (lazy_init sample_config failing_env initial_store) = None
   \<and> WordsDisplay_Next sample_config failing_env 5000 initial_store =
        (False, initial_store\<lparr>g_initialized := True\<rparr>)"
proof -
  have a: "g_initialized sample_store"
    and b: "g_words sample_store = Some [sample_entry, sample_entry, sample_entry]"
    and c: "0 \<le>s g_currentIndex sample_store"
    and d: "g_currentIndex sample_store <s g_wordCount sample_store"
    by (simp_all add: sample_store_def word_sle_eq word_sless_alt)
  have l: "lazy_init sample_config failing_env initial_store = initial_store\<lparr>g_initialized := True\<rparr>"
    by (simp add: lazy_init_def WordsDisplay_Init_def initial_store_def failing_env_def)
  from Next_wraps_and_reports_change [OF a b c d, of sample_config failing_env 5000 initial_store]
  show ?thesis
    using a b c d l
    by (auto simp: sample_store_def sample_config_def initial_store_def word_sle_eq word_sless_alt)
qed

section \<open>Lifecycle\<close>

lemma Init_cases:
  "WordsDisplay_Init cfg e s = (True, s) \<and> g_initialized s
   \<or> WordsDisplay_Init cfg e s = (False, s\<lparr>g_initialized := True\<rparr>) \<and> \<not> g_initialized s
   \<or> (\<exists>arr. WordsDisplay_Init cfg e s =
        (True, s\<lparr>g_initialized := True, g_words := Some arr,
                 g_wordCount := word_of_nat (length arr),
                 g_currentIndex := GetTickCount e mod word_of_nat (length arr),
                 g_nextSwitchTick := GetTickCount e +
                    (if 0 <s WORD_SWITCH_INTERVAL_SEC cfg
                     then WORD_SWITCH_INTERVAL_SEC cfg * 1000 else 0)\<rparr>)
        \<and> \<not> g_initialized s \<and> 0 <s (word_of_nat (length arr) :: 32 word))"
  by (auto simp: WordsDisplay_Init_def ParseTsvToWords_def Let_def word_sle_eq word_sless_alt
           split: option.splits sum.splits if_splits)

lemma Init_initialized:
  "g_initialized s \<Longrightarrow> WordsDisplay_Init cfg e s = (True, s)"
  by (simp add: WordsDisplay_Init_def)

text \<open>
  C5, as the code has it. \<open>WordsDisplay_Init\<close> sets \<open>g_initialized\<close> before it
  loads the resource. When the first call fails, the store is left without the
  entries but marked initialized, and a later call returns \<open>TRUE\<close> at once: it
  neither loads nor parses, whatever the resource provider would supply.
\<close>

theorem Init_failure_marks_initialized:
  assumes uninit: "\<not> g_initialized s"
    and failed: "\<not> fst (WordsDisplay_Init cfg e s)"
  shows "snd (WordsDisplay_Init cfg e s) = s\<lparr>g_initialized := True\<rparr>
       \<and> WordsDisplay_Init cfg' e' (snd (WordsDisplay_Init cfg e s)) =
           (True, snd (WordsDisplay_Init cfg e s))"
proof -
  from Init_cases [of cfg e s] uninit failed
  have "WordsDisplay_Init cfg e s = (False, s\<lparr>g_initialized := True\<rparr>)"
    by auto
  then show ?thesis by (simp add: Init_initialized)
qed

theorem Init_failure_marks_initialized_witness:
  "\<not> g_initialized initial_store
   \<and> \<not> fst (WordsDisplay_Init sample_config failing_env initial_store)
   \<and> snd (WordsDisplay_Init sample_config failing_env initial_store) =
        initial_store\<lparr>g_initialized := True\<rparr>
   \<and> WordsDisplay_Init sample_config sample_env
        (snd (WordsDisplay_Init sample_config failing_env initial_store)) =
        (True, snd (WordsDisplay_Init sample_config failing_env initial_store))"
proof -
  have a: "\<not> g_initialized initial_store" by (simp add: initial_store_def)
  have b: "\<not> fst (WordsDisplay_Init sample_config failing_env initial_store)"
    by (simp add: WordsDisplay_Init_def initial_store_def failing_env_def)
  from Init_failure_marks_initialized [OF a b, of sample_config sample_env] a b
  show ?thesis by blast
qed

text \<open>
  C5 as the specification words it fails on the store of a starting
  program: after a failed first call the store is marked initialized, and a
  second call, with a resource that a fresh store would load, returns \<open>TRUE\<close>
  and leaves the store without entries.
\<close>

theorem Init_failure_counterexample:
  "\<not> fst (WordsDisplay_Init sample_config failing_env initial_store)
   \<and> g_initialized (snd (WordsDisplay_Init sample_config failing_env initial_store))
   \<and> fst (WordsDisplay_Init sample_config sample_env initial_store)
   \<and> g_words (snd (WordsDisplay_Init sample_config sample_env initial_store)) \<noteq> None
   \<and> WordsDisplay_Init sample_config sample_env
        (snd (WordsDisplay_Init sample_config failing_env initial_store)) =
      (True, initial_store\<lparr>g_initialized := True\<rparr>)"
  by code_simp

section \<open>Parsing\<close>

subsection \<open>Trimming\<close>

lemma trim_trailing_rev:
  "trim_trailing s =
     rev (dropWhile (\<lambda>c. c = SPACE \<or> c = TAB \<or> c = CR \<or> c = NL) (rev s))"
proof (induction s rule: trim_trailing.induct)
  case (1 s)
  show ?case
  proof (cases "s = []")
    case True
    then show ?thesis by (subst trim_trailing.simps) simp
  next
    case False
    then obtain ys y where s: "s = ys @ [y]" by (metis rev_exhaust)
    show ?thesis
    proof (cases "y = SPACE \<or> y = TAB \<or> y = CR \<or> y = NL")
      case True
      with s 1 have "trim_trailing ys =
          rev (dropWhile (\<lambda>c. c = SPACE \<or> c = TAB \<or> c = CR \<or> c = NL) (rev ys))"
        by simp
      with True s show ?thesis
        by (subst trim_trailing.simps) auto
    next
      case False
      with s show ?thesis by (subst trim_trailing.simps) auto
    qed
  qed
qed

lemma skip_leading_dropWhile:
  "skip_leading s = dropWhile (\<lambda>c. c = SPACE \<or> c = TAB) s"
  by (induction s) auto

lemma rev_dropWhile_split:
  "xs = rev (dropWhile P (rev xs)) @ rev (takeWhile P (rev xs))"
proof -
  have "rev xs = takeWhile P (rev xs) @ dropWhile P (rev xs)" by simp
  then have "rev (rev xs) = rev (takeWhile P (rev xs) @ dropWhile P (rev xs))"
    by (rule arg_cong)
  then show ?thesis by (simp only: rev_rev_ident rev_append)
qed

lemma last_dropWhile_keep:
  assumes "dropWhile P xs \<noteq> []"
  shows "last (dropWhile P xs) = last xs"
proof -
  have "last (takeWhile P xs @ dropWhile P xs) = last (dropWhile P xs)"
    using assms by (rule last_appendR)
  then show ?thesis by (simp only: takeWhile_dropWhile_id)
qed

lemma last_rev_dropWhile:
  assumes "dropWhile P (rev xs) \<noteq> []"
  shows "\<not> P (last (rev (dropWhile P (rev xs))))"
proof -
  have "last (rev (dropWhile P (rev xs))) = hd (dropWhile P (rev xs))"
    by (simp add: last_rev)
  moreover have "\<not> P (hd (dropWhile P (rev xs)))"
    using assms by (rule hd_dropWhile)
  ultimately show ?thesis by simp
qed

lemma TrimWideInPlace_shape:
  "TrimWideInPlace s =
     dropWhile (\<lambda>c. c = SPACE \<or> c = TAB)
       (rev (dropWhile (\<lambda>c. c = SPACE \<or> c = TAB \<or> c = CR \<or> c = NL) (rev (cstr s))))
   \<and> (\<exists>pre suf. cstr s = pre @ TrimWideInPlace s @ suf
         \<and> set pre \<subseteq> {SPACE, TAB} \<and> set suf \<subseteq> {SPACE, TAB, CR, NL})
   \<and> (TrimWideInPlace s \<noteq> [] \<longrightarrow>
         hd (TrimWideInPlace s) \<notin> {SPACE, TAB}
         \<and> last (TrimWideInPlace s) \<notin> {SPACE, TAB, CR, NL})"
proof -
  define L where "L = (\<lambda>c. c = SPACE \<or> c = TAB)"
  define T where "T = (\<lambda>c. c = SPACE \<or> c = TAB \<or> c = CR \<or> c = NL)"
  define mid where "mid = rev (dropWhile T (rev (cstr s)))"
  define suf where "suf = rev (takeWhile T (rev (cstr s)))"
  have eq: "TrimWideInPlace s = dropWhile L mid"
    by (simp add: TrimWideInPlace_def trim_trailing_rev skip_leading_dropWhile L_def T_def mid_def)
  have c1: "cstr s = mid @ suf"
    unfolding mid_def suf_def by (rule rev_dropWhile_split)
  have c2: "mid = takeWhile L mid @ dropWhile L mid" by simp
  have "cstr s = (takeWhile L mid @ dropWhile L mid) @ suf"
    using c1 c2 by simp
  then have c3: "cstr s = takeWhile L mid @ TrimWideInPlace s @ suf"
    using eq by simp
  have p: "set (takeWhile L mid) \<subseteq> {SPACE, TAB}"
    by (auto simp: L_def dest: set_takeWhileD)
  have q: "set suf \<subseteq> {SPACE, TAB, CR, NL}"
    by (auto simp: suf_def T_def dest: set_takeWhileD)
  from c3 p q have ex: "\<exists>pre suf. cstr s = pre @ TrimWideInPlace s @ suf
         \<and> set pre \<subseteq> {SPACE, TAB} \<and> set suf \<subseteq> {SPACE, TAB, CR, NL}"
    by blast
  have ends: "hd (TrimWideInPlace s) \<notin> {SPACE, TAB}
         \<and> last (TrimWideInPlace s) \<notin> {SPACE, TAB, CR, NL}" if ne: "TrimWideInPlace s \<noteq> []"
  proof
    from ne eq have d: "dropWhile L mid \<noteq> []" by simp
    then have "\<not> L (hd (dropWhile L mid))" by (rule hd_dropWhile)
    with eq show "hd (TrimWideInPlace s) \<notin> {SPACE, TAB}" by (simp add: L_def)
    from d have l: "last (dropWhile L mid) = last mid" by (rule last_dropWhile_keep)
    from d have "mid \<noteq> []" by auto
    then have "dropWhile T (rev (cstr s)) \<noteq> []" by (simp add: mid_def)
    then have "\<not> T (last mid)" unfolding mid_def by (rule last_rev_dropWhile)
    with l eq show "last (TrimWideInPlace s) \<notin> {SPACE, TAB, CR, NL}" by (simp add: T_def)
  qed
  from eq ex ends show ?thesis unfolding L_def T_def mid_def by blast
qed

lemma TrimWideInPlace_zero_free: "0 \<notin> set (TrimWideInPlace s)"
proof -
  from TrimWideInPlace_shape [of s] obtain pre suf where
    "cstr s = pre @ TrimWideInPlace s @ suf" by blast
  then have "set (TrimWideInPlace s) \<subseteq> set (cstr s)" by auto
  moreover have "0 \<notin> set (cstr s)"
    by (auto simp: cstr_def dest: set_takeWhileD)
  ultimately show ?thesis by blast
qed

lemma split_fields_length: "1 \<le> length (split_fields fi cur xs)"
  by (induction xs arbitrary: fi cur) simp_all

text \<open>What \<open>parse_line\<close> stores for a field after the trimming.\<close>

lemma DupWide_trimmed:
  assumes "0 \<notin> set t"
  shows "DupWide (Some t) = Some t"
    and "(if first_char t \<noteq> 0 then DupWide (Some t) else DupWide (Some [])) = Some t"
    and "(first_char t \<noteq> 0) = (t \<noteq> [])"
proof -
  have c: "cstr t = t" using assms by (induction t) (auto simp: cstr_def)
  show d: "DupWide (Some t) = Some t" by (simp add: DupWide_def c)
  show f: "(first_char t \<noteq> 0) = (t \<noteq> [])"
    using assms by (cases t) (auto simp: first_char_def)
  show "(if first_char t \<noteq> 0 then DupWide (Some t) else DupWide (Some [])) = Some t"
    using d f by (simp add: DupWide_def cstr_def)
qed

text \<open>
  C9, as the code has it. \<open>parse_line\<close> splits the row at its tabs and applies
  \<open>TrimWideInPlace\<close> to every field: the row is dropped when the trimmed first
  field is empty, and otherwise the entry stored holds the trimmed fields, an
  absent field being empty. \<open>TrimWideInPlace\<close> removes from the end of a field
  every space, tab, carriage return and newline, and from its start every space
  and tab only: what it leaves neither starts with a space or a tab nor ends
  with one of the four characters. The field \<open>"  cat\t "\<close> becomes \<open>"cat"\<close>.
\<close>

theorem parse_line_trims_fields:
  "parse_line line arr =
     (if TrimWideInPlace (split_fields 1 [] line ! 0) = [] then arr
      else arr @
        [\<lparr>name = Some (TrimWideInPlace (split_fields 1 [] line ! 0)),
          uk = Some (if 1 < length (split_fields 1 [] line)
                     then TrimWideInPlace (split_fields 1 [] line ! 1) else []),
          us = Some (if 2 < length (split_fields 1 [] line)
                     then TrimWideInPlace (split_fields 1 [] line ! 2) else []),
          trans = Some (if 3 < length (split_fields 1 [] line)
                     then TrimWideInPlace (split_fields 1 [] line ! 3) else [])\<rparr>])
   \<and> TrimWideInPlace s =
       dropWhile (\<lambda>c. c = SPACE \<or> c = TAB)
         (rev (dropWhile (\<lambda>c. c = SPACE \<or> c = TAB \<or> c = CR \<or> c = NL) (rev (cstr s))))
   \<and> (\<exists>pre suf. cstr s = pre @ TrimWideInPlace s @ suf
         \<and> set pre \<subseteq> {SPACE, TAB} \<and> set suf \<subseteq> {SPACE, TAB, CR, NL})
   \<and> (TrimWideInPlace s \<noteq> [] \<longrightarrow>
         hd (TrimWideInPlace s) \<notin> {SPACE, TAB}
         \<and> last (TrimWideInPlace s) \<notin> {SPACE, TAB, CR, NL})"
proof -
  define raw where "raw = split_fields 1 [] line"
  define fields where "fields = map TrimWideInPlace raw"
  have len: "1 \<le> length raw" unfolding raw_def by (rule split_fields_length)
  have fl: "length fields = length raw" by (simp add: fields_def)
  have nth: "fields ! k = TrimWideInPlace (raw ! k)" if "k < length raw" for k
    using that by (simp add: fields_def)
  have zf: "0 \<notin> set (fields ! k)" if "k < length raw" for k
    unfolding nth [OF that] by (rule TrimWideInPlace_zero_free)
  have pos: "0 < length raw" using len by linarith
  have f0: "fields ! 0 = TrimWideInPlace (raw ! 0)" by (rule nth [OF pos])
  have z0: "0 \<notin> set (fields ! 0)" by (rule zf [OF pos])
  have nm: "DupWide (Some (fields ! 0)) = Some (TrimWideInPlace (raw ! 0))"
    using DupWide_trimmed(1) [OF z0] f0 by simp
  have e0: "(first_char (fields ! 0) \<noteq> 0) = (TrimWideInPlace (raw ! 0) \<noteq> [])"
    using DupWide_trimmed(3) [OF z0] f0 by simp
  have opt: "(if k < length fields \<and> first_char (fields ! k) \<noteq> 0
              then DupWide (Some (fields ! k)) else DupWide (Some []))
             = Some (if k < length raw then TrimWideInPlace (raw ! k) else [])" for k
  proof (cases "k < length raw")
    case True
    then show ?thesis
      using DupWide_trimmed(2) [OF zf [OF True]] nth [OF True] fl by simp
  next
    case False
    then show ?thesis by (simp add: fl DupWide_def cstr_def)
  qed
  have "parse_line line arr =
     (if TrimWideInPlace (raw ! 0) = [] then arr
      else arr @
        [\<lparr>name = Some (TrimWideInPlace (raw ! 0)),
          uk = Some (if 1 < length raw then TrimWideInPlace (raw ! 1) else []),
          us = Some (if 2 < length raw then TrimWideInPlace (raw ! 2) else []),
          trans = Some (if 3 < length raw then TrimWideInPlace (raw ! 3) else [])\<rparr>])"
    unfolding parse_line_def raw_def [symmetric] fields_def [symmetric] Let_def
    using e0 nm opt [of 1] opt [of 2] opt [of 3]
    by simp
  then show ?thesis
    unfolding raw_def using TrimWideInPlace_shape [of s] by blast
qed

theorem parse_line_trims_fields_witness:
  "parse_line
     [0x61, 0x09, 0x62, 0x09, 0x63, 0x09, 0x20, 0x20, 0x63, 0x61, 0x74, 0x09, 0x20] [] =
     [\<lparr>name = Some [0x61], uk = Some [0x62], us = Some [0x63],
       trans = Some [0x63, 0x61, 0x74]\<rparr>]
   \<and> split_fields 1 []
        [0x61, 0x09, 0x62, 0x09, 0x63, 0x09, 0x20, 0x20, 0x63, 0x61, 0x74, 0x09, 0x20] ! 3
        = [0x20, 0x20, 0x63, 0x61, 0x74, 0x09, 0x20]
   \<and> TrimWideInPlace [0x20, 0x20, 0x63, 0x61, 0x74, 0x09, 0x20] = [0x63, 0x61, 0x74]
   \<and> TrimWideInPlace [0x20, 0x20, 0x63, 0x61, 0x74, 0x09, 0x20] \<noteq> []
   \<and> hd (TrimWideInPlace [0x20, 0x20, 0x63, 0x61, 0x74, 0x09, 0x20]) \<notin> {SPACE, TAB}
   \<and> last (TrimWideInPlace [0x20, 0x20, 0x63, 0x61, 0x74, 0x09, 0x20]) \<notin> {SPACE, TAB, CR, NL}"
proof -
  have sp: "split_fields 1 []
        [0x61, 0x09, 0x62, 0x09, 0x63, 0x09, 0x20, 0x20, 0x63, 0x61, 0x74, 0x09, 0x20]
        = [[0x61], [0x62], [0x63], [0x20, 0x20, 0x63, 0x61, 0x74, 0x09, 0x20]]"
    by (simp add: TAB_def)
  have t0: "TrimWideInPlace [0x61] = [0x61]" and t1: "TrimWideInPlace [0x62] = [0x62]"
    and t2: "TrimWideInPlace [0x63] = [0x63]"
    by code_simp+
  from parse_line_trims_fields
    [of "[0x61, 0x09, 0x62, 0x09, 0x63, 0x09, 0x20, 0x20, 0x63, 0x61, 0x74, 0x09, 0x20]" "[]"
        "[0x20, 0x20, 0x63, 0x61, 0x74, 0x09, 0x20]"]
  show ?thesis
    by (simp add: sp t0 t1 t2 cstr_def SPACE_def TAB_def CR_def NL_def)
qed

text \<open>
  C9 as the specification words it fails for a carriage return at the
  start of a field: \<open>"\rcat"\<close> is returned unchanged, and the row
  \<open>"a\t\rcat"\<close> yields an entry whose UK transcription starts with the
  carriage return.
\<close>

theorem TrimWideInPlace_counterexample:
  "TrimWideInPlace [0x0D, 0x63, 0x61, 0x74] = [0x0D, 0x63, 0x61, 0x74]
   \<and> parse_line [0x61, 0x09, 0x0D, 0x63, 0x61, 0x74] [] =
       [\<lparr>name = Some [0x61], uk = Some [0x0D, 0x63, 0x61, 0x74], us = Some [], trans = Some []\<rparr>]"
  by code_simp

subsection \<open>The line floor\<close>

lemma count_lines_filter:
  "count_lines xs n = n + word_of_nat (length (filter (\<lambda>c. c = NL) xs))"
  by (induction xs arbitrary: n) simp_all

lemma spec_split_length:
  "length (spec_split cur xs) = Suc (length (filter (\<lambda>c. c = NL) xs))"
  by (induction xs arbitrary: cur) simp_all

lemma wcstok_s_shorter:
  assumes "wcstok_s str = Some (line, rest)"
  shows "length rest < length str"
proof -
  define s where "s = dropWhile (\<lambda>c. c = NL) str"
  from assms have ne: "s \<noteq> []" and r: "rest = drop 1 (dropWhile (\<lambda>c. c \<noteq> NL) s)"
    by (auto simp: wcstok_s_def s_def Let_def split: if_splits)
  have "length rest < length s"
  proof (cases "dropWhile (\<lambda>c. c \<noteq> NL) s = []")
    case True
    with ne r show ?thesis by simp
  next
    case False
    then have "length rest < length (dropWhile (\<lambda>c. c \<noteq> NL) s)"
      using r by (cases "dropWhile (\<lambda>c. c \<noteq> NL) s") auto
    also have "\<dots> \<le> length s" by (rule length_dropWhile_le)
    finally show ?thesis .
  qed
  also have "length s \<le> length str"
    unfolding s_def by (rule length_dropWhile_le)
  finally show ?thesis .
qed

lemma parse_line_length: "length (parse_line line arr) \<le> Suc (length arr)"
  by (simp add: parse_line_def Let_def)

lemma line_loop_length: "length (line_loop str arr) \<le> length arr + length str"
proof (induction str arr rule: line_loop.induct)
  case (1 str arr)
  show ?case
  proof (cases "wcstok_s str")
    case None
    then show ?thesis by (subst line_loop.simps) simp
  next
    case (Some p)
    obtain line rest where p: "p = (line, rest)" by (cases p)
    from Some p have tok: "wcstok_s str = Some (line, rest)" by simp
    have "length (line_loop rest (parse_line line arr)) \<le> length (parse_line line arr) + length rest"
      using 1 [OF Some p [symmetric]] .
    also have "\<dots> \<le> Suc (length arr) + length rest"
      using parse_line_length [of line arr] by simp
    also have "\<dots> \<le> length arr + length str"
      using wcstok_s_shorter [OF tok] by simp
    finally show ?thesis using tok by (subst line_loop.simps) simp
  qed
qed

text \<open>
  C4, as the code has it. For a text below \<open>2^31\<close> characters the parser
  returns at the floor exactly when the text holds fewer than ten newline
  characters. Split at the newlines the text has one line more than it has
  newlines, so the floor rejects every text of up to ten lines and a text of
  eleven lines or more goes on to the row loop, whose result alone decides
  between the failure for no usable row and success.
\<close>

theorem line_floor_counts_newlines:
  assumes conv: "Utf8ToWideAlloc e utf8 = Some wide"
    and small: "length (cstr wide) < 2 ^ 31"
  shows "(ParseTsvToWords e utf8 s = Inl InsufficientData)
           = (length (filter (\<lambda>c. c = NL) (cstr wide)) < 10)
       \<and> length (spec_lines (cstr wide)) = Suc (length (filter (\<lambda>c. c = NL) (cstr wide)))
       \<and> (10 \<le> length (filter (\<lambda>c. c = NL) (cstr wide)) \<longrightarrow>
            ParseTsvToWords e utf8 s =
              (if line_loop (cstr wide) [] = [] then Inl NoUsableEntries
               else Inr (s\<lparr>g_words := Some (line_loop (cstr wide) []),
                           g_wordCount := word_of_nat (length (line_loop (cstr wide) [])),
                           g_currentIndex := 0\<rparr>)))"
proof -
  let ?n = "length (filter (\<lambda>c. c = NL) (cstr wide))"
  let ?arr = "line_loop (cstr wide) []"
  have "?n < 2 ^ 31" by (rule le_less_trans [OF length_filter_le small])
  then have "sint (word_of_nat ?n :: 32 word) = int ?n" by (rule sint_of_nat_small)
  then have lines: "(count_lines (cstr wide) 0 <s 10) = (?n < 10)"
    by (simp add: count_lines_filter word_sless_alt)
  have "length ?arr \<le> length (cstr wide)"
    using line_loop_length [of "cstr wide" "[]"] by simp
  then have "length ?arr < 2 ^ 31" using small by (rule le_less_trans)
  then have "sint (word_of_nat (length ?arr) :: 32 word) = int (length ?arr)"
    by (rule sint_of_nat_small)
  then have count: "((word_of_nat (length ?arr) :: 32 word) \<le>s 0) = (?arr = [])"
    by (simp add: word_sle_eq)
  have a: "(ParseTsvToWords e utf8 s = Inl InsufficientData) = (?n < 10)"
    using conv lines by (simp add: ParseTsvToWords_def Let_def)
  have b: "length (spec_lines (cstr wide)) = Suc ?n"
    by (simp add: spec_lines_def spec_split_length)
  have c: "10 \<le> ?n \<longrightarrow>
            ParseTsvToWords e utf8 s =
              (if ?arr = [] then Inl NoUsableEntries
               else Inr (s\<lparr>g_words := Some ?arr,
                           g_wordCount := word_of_nat (length ?arr),
                           g_currentIndex := 0\<rparr>))"
    using conv lines count by (simp add: ParseTsvToWords_def Let_def)
  from a b c show ?thesis by blast
qed

theorem line_floor_counts_newlines_witness:
  "Utf8ToWideAlloc sample_env sample_resource = Some (map ucast sample_resource)
   \<and> length (cstr (map ucast sample_resource)) < 2 ^ 31
   \<and> 10 \<le> length (filter (\<lambda>c. c = NL) (cstr (map ucast sample_resource)))
   \<and> ParseTsvToWords sample_env sample_resource initial_store \<noteq> Inl InsufficientData
   \<and> ParseTsvToWords sample_env sample_resource initial_store =
         Inr (initial_store\<lparr>g_words := Some (line_loop (cstr (map ucast sample_resource)) []),
                g_wordCount := 10, g_currentIndex := 0\<rparr>)"
proof -
  have a: "Utf8ToWideAlloc sample_env sample_resource = Some (map ucast sample_resource)"
    by (simp add: sample_env_def)
  have w: "cstr (map ucast sample_resource) =
      [0x61, NL, 0x61, NL, 0x61, NL, 0x61, NL, 0x61, NL, 0x61, NL, 0x61, NL, 0x61, NL, 0x61, NL, 0x61, NL]"
    by code_simp
  have b: "length (cstr (map ucast sample_resource)) < 2 ^ 31"
    by (simp add: w)
  have n: "length (filter (\<lambda>c. c = NL) (cstr (map ucast sample_resource))) = 10"
    by (simp add: w) (simp add: NL_def)
  have l: "length (line_loop (cstr (map ucast sample_resource)) []) = 10"
    by code_simp
  from line_floor_counts_newlines [OF a b, of initial_store]
  show ?thesis using a b n l by auto
qed

text \<open>
  C4 as the specification words it fails for ten rows separated by
  nine newlines: they are ten lines, the row loop finds ten entries in them,
  and the floor rejects them.
\<close>

theorem line_floor_counterexample:
  "length (spec_lines (map ucast ten_rows_resource)) = 10
   \<and> length (line_loop (map ucast ten_rows_resource) []) = 10
   \<and> ParseTsvToWords
        (sample_env\<lparr>LoadResourceToUtf8Buffer := Some ten_rows_resource\<rparr>)
        ten_rows_resource initial_store = Inl InsufficientData"
  by code_simp

section \<open>The deadline comparison\<close>

lemma due_iff_elapsed:
  fixes t0 now ms :: "32 word"
  assumes nowrap: "unat t0 + unat ms < 2 ^ 32" and later: "t0 \<le> now"
  shows "(t0 + ms \<le> now) = (ms \<le> now - t0)"
proof -
  have a: "unat (t0 + ms) = unat t0 + unat ms"
    using nowrap by (simp add: unat_add_lem [THEN iffD1])
  have b: "unat (now - t0) = unat now - unat t0"
    using later by (simp add: unat_sub)
  have c: "unat t0 \<le> unat now" using later by (simp add: word_le_nat_alt)
  show ?thesis using a b c by (simp add: word_le_nat_alt) arith
qed

text \<open>
  C6, as the code has it. \<open>WordsDisplay_Tick\<close> compares \<open>nowTick\<close> with the
  deadline by the plain unsigned \<open>>=\<close> of two \<open>DWORD\<close>s. For a deadline armed at
  tick \<open>t0\<close> the comparison is right when neither the arming nor the counter
  has wrapped: if \<open>t0\<close> plus the interval stays below \<open>2^32\<close> and \<open>now\<close> is a
  reading not before \<open>t0\<close>, the tick advances exactly when the interval has
  elapsed, and does nothing before.
\<close>

theorem Tick_compare_without_wrap:
  assumes enabled: "WORD_DISPLAY_ENABLED cfg"
    and init: "g_initialized s"
    and words: "g_words s = Some ws"
    and lo: "0 \<le>s g_currentIndex s" and hi: "g_currentIndex s <s g_wordCount s"
    and interval: "0 <s WORD_SWITCH_INTERVAL_SEC cfg"
    and armed: "g_nextSwitchTick s = t0 + WORD_SWITCH_INTERVAL_SEC cfg * 1000"
    and nowrap: "unat t0 + unat (WORD_SWITCH_INTERVAL_SEC cfg * 1000) < 2 ^ 32"
    and later: "t0 \<le> now"
  shows "(WORD_SWITCH_INTERVAL_SEC cfg * 1000 \<le> now - t0 \<longrightarrow>
            snd (WordsDisplay_Tick cfg e now s) =
              s\<lparr>g_currentIndex :=
                   (if g_currentIndex s + 1 = g_wordCount s then 0 else g_currentIndex s + 1),
                g_nextSwitchTick := now + WORD_SWITCH_INTERVAL_SEC cfg * 1000\<rparr>)
       \<and> (now - t0 < WORD_SWITCH_INTERVAL_SEC cfg * 1000 \<longrightarrow>
            WordsDisplay_Tick cfg e now s = (False, s))"
  using Tick_initialized [OF enabled init words lo hi interval, of e now]
    due_iff_elapsed [OF nowrap later] armed
  by (auto simp: not_le [symmetric])

theorem Tick_compare_without_wrap_witness:
  "WORD_DISPLAY_ENABLED sample_config
   \<and> g_initialized (sample_store\<lparr>g_nextSwitchTick := 21000\<rparr>)
   \<and> 0 <s WORD_SWITCH_INTERVAL_SEC sample_config
   \<and> (21000 :: DWORD) = 1000 + WORD_SWITCH_INTERVAL_SEC sample_config * 1000
   \<and> unat (1000 :: DWORD) + unat (WORD_SWITCH_INTERVAL_SEC sample_config * 1000) < 2 ^ 32
   \<and> (1000 :: DWORD) \<le> 21000 \<and> (1000 :: DWORD) \<le> 20999
   \<and> WORD_SWITCH_INTERVAL_SEC sample_config * 1000 \<le> (21000 - 1000 :: DWORD)
   \<and> snd (WordsDisplay_Tick sample_config sample_env 21000
             (sample_store\<lparr>g_nextSwitchTick := 21000\<rparr>)) =
        sample_store\<lparr>g_currentIndex := 0, g_nextSwitchTick := 41000\<rparr>
   \<and> (20999 - 1000 :: DWORD) < WORD_SWITCH_INTERVAL_SEC sample_config * 1000
   \<and> WordsDisplay_Tick sample_config sample_env 20999
        (sample_store\<lparr>g_nextSwitchTick := 21000\<rparr>) =
        (False, sample_store\<lparr>g_nextSwitchTick := 21000\<rparr>)"
proof -
  let ?s = "sample_store\<lparr>g_nextSwitchTick := 21000\<rparr>"
  have a: "WORD_DISPLAY_ENABLED sample_config"
    and f: "0 <s WORD_SWITCH_INTERVAL_SEC sample_config"
    and i: "WORD_SWITCH_INTERVAL_SEC sample_config * 1000 = 20000"
    by (simp_all add: sample_config_def word_sless_alt)
  have b: "g_initialized ?s"
    and c: "g_words ?s = Some [sample_entry, sample_entry, sample_entry]"
    and d: "0 \<le>s g_currentIndex ?s"
    and e: "g_currentIndex ?s <s g_wordCount ?s"
    and g: "g_nextSwitchTick ?s = 1000 + WORD_SWITCH_INTERVAL_SEC sample_config * 1000"
    by (simp_all add: sample_store_def i word_sle_eq word_sless_alt)
  have h: "unat (1000 :: DWORD) + unat (WORD_SWITCH_INTERVAL_SEC sample_config * 1000) < 2 ^ 32"
    by (simp add: i)
  have l1: "(1000 :: DWORD) \<le> 21000" and l2: "(1000 :: DWORD) \<le> 20999" by simp_all
  from Tick_compare_without_wrap [OF a b c d e f g h l1, of sample_env]
    Tick_compare_without_wrap [OF a b c d e f g h l2, of sample_env]
  show ?thesis
    using a b f h by (simp add: i sample_store_def)
qed

text \<open>
  C6 as the specification words it fails when the arming wraps: a
  deadline armed at tick \<open>0xFFFFFF00\<close> with an interval of 20 seconds is the
  small number 19744, and a tick one millisecond after the arming finds it
  passed and advances.
\<close>

theorem Tick_compare_counterexample:
  "(0xFFFFFF01 - 0xFFFFFF00 :: DWORD) < WORD_SWITCH_INTERVAL_SEC sample_config * 1000
   \<and> g_nextSwitchTick (snd (WordsDisplay_Next sample_config sample_env 0xFFFFFF00 sample_store))
        = 0xFFFFFF00 + WORD_SWITCH_INTERVAL_SEC sample_config * 1000
   \<and> fst (WordsDisplay_Tick sample_config sample_env 0xFFFFFF01
            (snd (WordsDisplay_Next sample_config sample_env 0xFFFFFF00 sample_store)))"
  by code_simp

section \<open>The index invariant\<close>

lemma mod_count_in_range:
  fixes t n :: "32 word"
  assumes "0 <s n"
  shows "0 \<le>s t mod n \<and> t mod n <s n"
proof -
  have n0: "0 < sint n" using assms by (simp add: word_sless_alt)
  then have sn: "sint n = uint n" by (simp add: sint_nonneg_uint)
  with n0 have "n \<noteq> 0" by auto
  then have "0 < n" by (simp add: word_neq_0_conv)
  then have "t mod n < n" by (rule word_mod_less_divisor)
  then have lt: "uint (t mod n) < uint n" by (simp add: word_less_def)
  have "uint n < 2 ^ 31" using sint_lt [of n] sn by simp
  with lt have "uint (t mod n) < 2 ^ 31" by simp
  then have "sint (t mod n) = uint (t mod n)" by (rule uint_small_sint)
  with lt sn show ?thesis by (simp add: word_sle_eq word_sless_alt)
qed

lemma Init_index_in_range:
  assumes "index_in_range s"
  shows "index_in_range (snd (WordsDisplay_Init cfg e s))"
  using Init_cases [of cfg e s] assms
  by (auto simp: index_in_range_def mod_count_in_range)

lemma lazy_init_index_in_range:
  "index_in_range s \<Longrightarrow> index_in_range (lazy_init cfg e s)"
  by (simp add: lazy_init_def Init_index_in_range)

lemma SetCurrentIndex_index_in_range:
  "index_in_range (snd (SetCurrentIndex idx s))"
  by (auto simp: SetCurrentIndex_def index_in_range_def Let_def word_sle_eq word_sless_alt)

lemma SetCurrentIndex_frame:
  "g_words (snd (SetCurrentIndex idx s)) = g_words s"
  "g_wordCount (snd (SetCurrentIndex idx s)) = g_wordCount s"
  by (auto simp: SetCurrentIndex_def Let_def)

lemma index_in_range_deadline:
  "index_in_range (s\<lparr>g_nextSwitchTick := d\<rparr>) = index_in_range s"
  by (simp add: index_in_range_def)

lemma Next_index_in_range:
  assumes "index_in_range s"
  shows "index_in_range (snd (WordsDisplay_Next cfg e now s))"
  using lazy_init_index_in_range [OF assms, of cfg e]
    SetCurrentIndex_index_in_range [of "g_currentIndex (lazy_init cfg e s) + 1" "lazy_init cfg e s"]
  by (simp add: WordsDisplay_Next_def Let_def split_beta index_in_range_deadline)

lemma Tick_index_in_range:
  assumes "index_in_range s"
  shows "index_in_range (snd (WordsDisplay_Tick cfg e now s))"
  using lazy_init_index_in_range [OF assms, of cfg e] assms
    SetCurrentIndex_index_in_range [of "g_currentIndex (lazy_init cfg e s) + 1" "lazy_init cfg e s"]
  by (simp add: WordsDisplay_Tick_def Let_def split_beta index_in_range_deadline)

lemma FormatSuffix_store:
  assumes "WordsDisplay_FormatSuffix cfg e out outChars s = Some (out', s')"
  shows "s' = s \<or> s' = lazy_init cfg e s"
  using assms
  by (auto simp: WordsDisplay_FormatSuffix_def Let_def split: option.splits if_splits)

lemma Shutdown_index_in_range: "index_in_range (WordsDisplay_Shutdown s)"
  by (simp add: WordsDisplay_Shutdown_def FreeWords_def index_in_range_def)

text \<open>
  C8. If the current index lies in \<open>[0, count)\<close> whenever the store holds an
  entry, then the same is true of the store that \<open>WordsDisplay_Init\<close>,
  \<open>WordsDisplay_Next\<close>, \<open>WordsDisplay_Tick\<close>, \<open>WordsDisplay_FormatSuffix\<close> and
  \<open>WordsDisplay_Shutdown\<close> leave behind; the store of a starting program has the
  property too.
\<close>

theorem index_in_range_preserved:
  assumes "index_in_range s"
  shows "index_in_range (snd (WordsDisplay_Init cfg e s))
       \<and> index_in_range (snd (WordsDisplay_Next cfg e now s))
       \<and> index_in_range (snd (WordsDisplay_Tick cfg e now s))
       \<and> (\<forall>out' s'. WordsDisplay_FormatSuffix cfg e out outChars s = Some (out', s')
            \<longrightarrow> index_in_range s')
       \<and> index_in_range (WordsDisplay_Shutdown s)
       \<and> index_in_range initial_store"
proof -
  have "\<forall>out' s'. WordsDisplay_FormatSuffix cfg e out outChars s = Some (out', s')
            \<longrightarrow> index_in_range s'"
    using FormatSuffix_store [of cfg e out outChars s] lazy_init_index_in_range [OF assms, of cfg e] assms
    by blast
  moreover have "index_in_range initial_store"
    by (simp add: index_in_range_def initial_store_def)
  ultimately show ?thesis
    using assms
    by (simp add: Init_index_in_range Next_index_in_range Tick_index_in_range Shutdown_index_in_range)
qed

theorem index_in_range_preserved_witness:
  "index_in_range sample_store
   \<and> index_in_range (snd (WordsDisplay_Init sample_config sample_env sample_store))
   \<and> index_in_range (snd (WordsDisplay_Next sample_config sample_env 5000 sample_store))
   \<and> index_in_range (snd (WordsDisplay_Tick sample_config sample_env 5000 sample_store))
   \<and> WordsDisplay_FormatSuffix sample_config sample_env (Some [7, 7, 7, 7, 7]) 5 sample_store =
         Some (Some [0x20, 0x20, 0x61, 0x62, 0], sample_store)
   \<and> index_in_range sample_store
   \<and> index_in_range (WordsDisplay_Shutdown sample_store)"
proof -
  have inv: "index_in_range sample_store"
    by (simp add: index_in_range_def sample_store_def word_sle_eq word_sless_alt)
  have fmt: "WordsDisplay_FormatSuffix sample_config sample_env (Some [7, 7, 7, 7, 7]) 5 sample_store =
         Some (Some [0x20, 0x20, 0x61, 0x62, 0], sample_store)"
    by code_simp
  from index_in_range_preserved [OF inv, of sample_config sample_env 5000 "Some [7, 7, 7, 7, 7]" 5]
  show ?thesis using inv fmt by simp
qed

section \<open>Formatting\<close>

lemma cstr_zero_free: "0 \<notin> set (cstr s)"
  by (auto simp: cstr_def dest: set_takeWhileD)

lemma cstr_id: "0 \<notin> set xs \<Longrightarrow> cstr xs = xs"
  by (induction xs) (auto simp: cstr_def)

lemma cstr_append_NUL: "0 \<notin> set xs \<Longrightarrow> cstr (xs @ 0 # ys) = xs"
  by (induction xs) (auto simp: cstr_def)

lemma cstr_take: "take (length (cstr s)) s = cstr s"
  unfolding cstr_def by (rule takeWhile_eq_take [symmetric])

lemma wcslen_SomeD:
  assumes "wcslen buf = Some k"
  shows "k = length (cstr buf)" and "k < length buf" and "take k buf = cstr buf"
proof -
  from assms have z: "0 \<in> set buf" and k: "k = length (cstr buf)"
    by (auto simp: wcslen_def split: if_splits)
  show "k = length (cstr buf)" by (rule k)
  show "take k buf = cstr buf" unfolding k by (rule cstr_take)
  have "length (cstr buf) < length buf"
    using z by (induction buf) (auto simp: cstr_def)
  then show "k < length buf" by (simp add: k)
qed

lemma wcslen_append_NUL: "0 \<notin> set xs \<Longrightarrow> wcslen (xs @ 0 # ys) = Some (length xs)"
  by (simp add: wcslen_def cstr_append_NUL)

text \<open>The effect of storing a zero-free text and its terminator at the terminator.\<close>

lemma store_at_terminator:
  assumes len: "wcslen out = Some cur"
    and zf: "0 \<notin> set xs"
    and room: "cur + length xs < length out"
  shows "\<exists>out1. store_at out cur (xs @ [0]) = Some out1
           \<and> cstr out1 = cstr out @ xs
           \<and> wcslen out1 = Some (cur + length xs)
           \<and> length out1 = length out
           \<and> (\<forall>k. cur + length xs < k \<longrightarrow> drop k out1 = drop k out)"
proof -
  let ?out1 = "take cur out @ (xs @ [0]) @ drop (cur + length (xs @ [0])) out"
  have st: "store_at out cur (xs @ [0]) = Some ?out1"
    using room by (simp add: store_at_def)
  have tk: "take cur out = cstr out" using len by (rule wcslen_SomeD)
  have zf2: "0 \<notin> set (cstr out @ xs)" using zf by (simp add: cstr_zero_free)
  have shape: "?out1 = (cstr out @ xs) @ 0 # drop (Suc (cur + length xs)) out"
    by (simp add: tk)
  have c: "cstr ?out1 = cstr out @ xs"
    unfolding shape using zf2 by (rule cstr_append_NUL)
  have "length (cstr out) = cur" using wcslen_SomeD(1) [OF len] by simp
  then have w: "wcslen ?out1 = Some (cur + length xs)"
    unfolding shape using wcslen_append_NUL [OF zf2] by simp
  have l: "length ?out1 = length out" using room by simp
  have d: "drop k ?out1 = drop k out" if "cur + length xs < k" for k
  proof -
    from that obtain j where j: "k = Suc (cur + length xs) + j"
      by (metis add_Suc less_iff_Suc_add)
    have "length (take cur out) = cur" using room by simp
    then show ?thesis using room by (simp add: j min_def add.commute)
  qed
  from st c w l d show ?thesis by blast
qed

text \<open>What one append does to a buffer that is terminated inside its capacity.\<close>

lemma AppendWithLimit_content:
  assumes len: "wcslen out = Some cur"
    and cur: "cur < outChars"
    and ext: "outChars \<le> length out"
  shows "\<exists>out1. AppendWithLimit out outChars (Some src) = Some out1
           \<and> cstr out1 = cstr out @ take (outChars - 1 - cur) (cstr src)
           \<and> wcslen out1 = Some (cur + length (take (outChars - 1 - cur) (cstr src)))
           \<and> length out1 = length out
           \<and> drop outChars out1 = drop outChars out"
proof (cases "outChars - 1 \<le> cur")
  case True
  then have "outChars - 1 - cur = 0" by simp
  then show ?thesis using len cur True by (simp add: AppendWithLimit_def)
next
  case False
  let ?xs = "take (outChars - 1 - cur) (cstr src)"
  have zf: "0 \<notin> set ?xs"
    using cstr_zero_free [of src] by (auto dest: in_set_takeD)
  have "length ?xs \<le> outChars - 1 - cur" by simp
  with False ext have room: "cur + length ?xs < length out" and k: "cur + length ?xs < outChars"
    by simp_all
  from store_at_terminator [OF len zf room] obtain out1 where
    st: "store_at out cur (?xs @ [0]) = Some out1"
    and c: "cstr out1 = cstr out @ ?xs"
    and w: "wcslen out1 = Some (cur + length ?xs)"
    and l: "length out1 = length out"
    and d: "\<forall>k. cur + length ?xs < k \<longrightarrow> drop k out1 = drop k out"
    by blast
  have "AppendWithLimit out outChars (Some src) = Some out1"
    using len cur False st by (simp add: AppendWithLimit_def wcsncat_def)
  moreover have "drop outChars out1 = drop outChars out" using d k by blast
  ultimately show ?thesis using c w l by blast
qed

lemma AppendWithLimit_None:
  "AppendWithLimit out outChars None = Some out"
  by (simp add: AppendWithLimit_def)

lemma wcsncat_cstr: "wcsncat dest (cstr src) n = wcsncat dest src n"
proof -
  have "cstr (cstr src) = cstr src" using cstr_zero_free by (rule cstr_id)
  then show ?thesis by (simp add: wcsncat_def split: option.splits)
qed

lemma AppendWithLimit_cstr:
  "AppendWithLimit out outChars (Some (cstr src)) = AppendWithLimit out outChars (Some src)"
  by (simp add: AppendWithLimit_def wcsncat_cstr split: option.splits)

lemma within_capacityI:
  "length out = length out0 \<Longrightarrow> drop outChars out = drop outChars out0
   \<Longrightarrow> wcslen out = Some k \<Longrightarrow> k < outChars \<Longrightarrow> within_capacity out0 outChars out"
  by (simp add: within_capacity_def)

lemma within_capacityD:
  assumes "within_capacity out0 outChars out"
  obtains k where "wcslen out = Some k" and "k < outChars"
    and "length out = length out0" and "drop outChars out = drop outChars out0"
  using assms by (auto simp: within_capacity_def split: option.splits)

lemma AppendWithLimit_within:
  assumes w: "within_capacity out0 outChars out" and ext: "outChars \<le> length out0"
  shows "\<exists>out1. AppendWithLimit out outChars s = Some out1 \<and> within_capacity out0 outChars out1"
proof (cases s)
  case None
  then show ?thesis using w by (simp add: AppendWithLimit_None)
next
  case (Some src)
  from w obtain k where len: "wcslen out = Some k" and k: "k < outChars"
    and l: "length out = length out0" and d: "drop outChars out = drop outChars out0"
    by (rule within_capacityD)
  from ext l have ext': "outChars \<le> length out" by simp
  let ?xs = "take (outChars - 1 - k) (cstr src)"
  from AppendWithLimit_content [OF len k ext', of src] obtain out1 where
    a: "AppendWithLimit out outChars (Some src) = Some out1"
    and w1: "wcslen out1 = Some (k + length ?xs)"
    and l1: "length out1 = length out"
    and d1: "drop outChars out1 = drop outChars out"
    by blast
  have "length ?xs \<le> outChars - 1 - k" by simp
  with k have "k + length ?xs < outChars" by simp
  with w1 l1 d1 l d have "within_capacity out0 outChars out1"
    by (intro within_capacityI) simp_all
  with a Some show ?thesis by simp
qed

lemma copy_bound:
  fixes max :: "32 word"
  assumes pos: "\<not> max \<le>s 0"
  shows "unat (if 240 <s max then 240 else max) = min (nat (sint max)) 240"
proof -
  have s240: "sint (240 :: 32 word) = 240" by simp
  have u240: "unat (240 :: 32 word) = 240" by simp
  have p: "0 \<le> sint max" using pos by (simp add: word_sle_eq)
  then have su: "sint max = uint max" by (rule sint_nonneg_uint)
  have u: "unat max = nat (sint max)"
    unfolding su by (rule unat_eq_nat_uint)
  have iff: "(240 <s max) = (240 < sint max)"
    unfolding word_sless_alt s240 ..
  show ?thesis
  proof (cases "240 < sint max")
    case True
    then have "min (nat (sint max)) 240 = 240" by simp
    with True show ?thesis unfolding iff by (simp only: if_True u240)
  next
    case False
    then have "min (nat (sint max)) 240 = nat (sint max)" by simp
    with False show ?thesis unfolding iff by (simp only: if_False u)
  qed
qed

text \<open>The local array \<open>tmp\<close> after \<open>wcsncpy\<close> and \<open>tmp[copy] = 0\<close>.\<close>

lemma store_at_front:
  "length p \<le> length buf \<Longrightarrow> store_at buf 0 p = Some (p @ drop (length p) buf)"
  by (simp add: store_at_def)

lemma store_at_after_prefix:
  "r \<noteq> [] \<Longrightarrow> store_at (p @ r) (length p) [z] = Some (p @ z # tl r)"
  by (cases r) (simp_all add: store_at_def)

lemma tmp_content:
  assumes n: "n \<le> 240"
  shows "\<exists>tmp1 tmp. wcsncpy (replicate 256 0) c n = Some tmp1
           \<and> store_at tmp1 n [0] = Some tmp \<and> cstr tmp = take n (cstr c)"
proof -
  define xs where "xs = take n (cstr c)"
  define pad where "pad = replicate (n - length (cstr c)) (0 :: wchar)"
  define piece where "piece = xs @ pad"
  define rest where "rest = replicate (256 - n) (0 :: wchar)"
  have lp: "length piece = n"
    unfolding piece_def xs_def pad_def by simp
  have lr: "rest \<noteq> []" using n by (simp add: rest_def)
  have "length piece \<le> length (replicate 256 (0 :: wchar))" using n lp by simp
  then have "store_at (replicate 256 0) 0 piece = Some (piece @ drop (length piece) (replicate 256 0))"
    by (rule store_at_front)
  then have a: "wcsncpy (replicate 256 0) c n = Some (piece @ rest)"
    by (simp add: wcsncpy_def piece_def xs_def pad_def rest_def lp [unfolded piece_def xs_def pad_def])
  have "store_at (piece @ rest) (length piece) [0] = Some (piece @ 0 # tl rest)"
    using lr by (rule store_at_after_prefix)
  then have b: "store_at (piece @ rest) n [0] = Some (piece @ 0 # tl rest)"
    by (simp only: lp)
  have sh: "piece @ 0 # tl rest = xs @ 0 # (pad @ tl rest)"
    by (simp add: piece_def pad_def replicate_app_Cons_same)
  have "0 \<notin> set xs"
    unfolding xs_def using cstr_zero_free [of c] by (auto dest: in_set_takeD)
  then have "cstr (xs @ 0 # (pad @ tl rest)) = xs" by (rule cstr_append_NUL)
  then have "cstr (piece @ 0 # tl rest) = xs" unfolding sh .
  with a b show ?thesis unfolding xs_def by blast
qed

lemma AppendCnTruncated_unfold:
  "AppendCnTruncated cfg out outChars (Some c) =
     (if first_char c = 0 then Some out
      else if WORD_CHINESE_MAX_LEN cfg \<le>s 0
              \<or> int_of_size_t (length (cstr c)) \<le>s WORD_CHINESE_MAX_LEN cfg
           then AppendWithLimit out outChars (Some c)
      else (case AppendWithLimit out outChars
                   (Some (take (min (nat (sint (WORD_CHINESE_MAX_LEN cfg))) 240) (cstr c))) of
              None \<Rightarrow> None
            | Some out1 \<Rightarrow> AppendWithLimit out1 outChars (Some [ELLIPSIS])))"
proof (cases "first_char c = 0 \<or> WORD_CHINESE_MAX_LEN cfg \<le>s 0
              \<or> int_of_size_t (length (cstr c)) \<le>s WORD_CHINESE_MAX_LEN cfg")
  case True
  then show ?thesis by (auto simp: AppendCnTruncated_def Let_def)
next
  case False
  let ?n = "min (nat (sint (WORD_CHINESE_MAX_LEN cfg))) 240"
  from False have pos: "\<not> WORD_CHINESE_MAX_LEN cfg \<le>s 0" by simp
  have cp: "unat (if 240 <s WORD_CHINESE_MAX_LEN cfg then 240 else WORD_CHINESE_MAX_LEN cfg) = ?n"
    using pos by (rule copy_bound)
  have "?n \<le> 240" by simp
  from tmp_content [OF this, of c] obtain tmp1 tmp where
    a: "wcsncpy (replicate 256 0) c ?n = Some tmp1"
    and b: "store_at tmp1 ?n [0] = Some tmp"
    and t: "cstr tmp = take ?n (cstr c)"
    by blast
  have "AppendWithLimit out outChars (Some tmp) = AppendWithLimit out outChars (Some (cstr tmp))"
    by (rule AppendWithLimit_cstr [symmetric])
  then have "AppendWithLimit out outChars (Some tmp)
      = AppendWithLimit out outChars (Some (take ?n (cstr c)))"
    by (simp add: t)
  then show ?thesis
    using False a b by (simp add: AppendCnTruncated_def Let_def cp)
qed

lemma AppendCnTruncated_within:
  assumes w: "within_capacity out0 outChars out" and ext: "outChars \<le> length out0"
  shows "\<exists>out1. AppendCnTruncated cfg out outChars cn = Some out1
           \<and> within_capacity out0 outChars out1"
proof (cases cn)
  case None
  then show ?thesis using w by (simp add: AppendCnTruncated_def)
next
  case (Some c)
  let ?a = "take (min (nat (sint (WORD_CHINESE_MAX_LEN cfg))) 240) (cstr c)"
  from AppendWithLimit_within [OF w ext, of "Some c"] obtain o1 where
    v: "AppendWithLimit out outChars (Some c) = Some o1" "within_capacity out0 outChars o1"
    by blast
  from AppendWithLimit_within [OF w ext, of "Some ?a"] obtain o2 where
    t1: "AppendWithLimit out outChars (Some ?a) = Some o2" and w2: "within_capacity out0 outChars o2"
    by blast
  from AppendWithLimit_within [OF w2 ext, of "Some [ELLIPSIS]"] obtain o3 where
    t2: "AppendWithLimit o2 outChars (Some [ELLIPSIS]) = Some o3" "within_capacity out0 outChars o3"
    by blast
  show ?thesis
    unfolding Some AppendCnTruncated_unfold using w v t1 t2 by simp
qed

lemma append_phonetic_within:
  assumes w: "within_capacity out0 outChars out" and ext: "outChars \<le> length out0"
  shows "\<exists>out1. append_phonetic out outChars ph = Some out1
           \<and> within_capacity out0 outChars out1"
proof -
  from AppendWithLimit_within [OF w ext, of "Some [SPACE, LBRACKET]"] obtain o1 where
    a1: "AppendWithLimit out outChars (Some [SPACE, LBRACKET]) = Some o1"
    and w1: "within_capacity out0 outChars o1"
    by blast
  from AppendWithLimit_within [OF w1 ext, of ph] obtain o2 where
    a2: "AppendWithLimit o1 outChars ph = Some o2" and w2: "within_capacity out0 outChars o2"
    by blast
  from AppendWithLimit_within [OF w2 ext, of "Some [RBRACKET]"] obtain o3 where
    a3: "AppendWithLimit o2 outChars (Some [RBRACKET]) = Some o3"
    and w3: "within_capacity out0 outChars o3"
    by blast
  show ?thesis
    using w a1 a2 a3 w3 by (cases ph) (auto simp: append_phonetic_def)
qed

lemma format_entry_within:
  assumes w: "within_capacity out0 outChars out" and ext: "outChars \<le> length out0"
  shows "\<exists>out1. format_entry cfg w0 out outChars = Some out1
           \<and> within_capacity out0 outChars out1"
proof -
  from AppendWithLimit_within [OF w ext, of "Some [SPACE, SPACE]"] obtain o1 where
    a1: "AppendWithLimit out outChars (Some [SPACE, SPACE]) = Some o1"
    and w1: "within_capacity out0 outChars o1"
    by blast
  from AppendWithLimit_within [OF w1 ext,
      of "Some (case name w0 of None \<Rightarrow> [] | Some n \<Rightarrow> n)"] obtain o2 where
    a2: "AppendWithLimit o1 outChars (Some (case name w0 of None \<Rightarrow> [] | Some n \<Rightarrow> n)) = Some o2"
    and w2: "within_capacity out0 outChars o2"
    by blast
  let ?ph = "if WORD_SHOW_PHONETIC cfg then
              (if WORD_PHONETIC_MODE cfg = 2 then
                 (case append_phonetic o2 outChars (uk w0) of
                    None \<Rightarrow> None
                  | Some out2a \<Rightarrow> append_phonetic out2a outChars (us w0))
               else if WORD_PHONETIC_MODE cfg = 1 then append_phonetic o2 outChars (us w0)
               else append_phonetic o2 outChars (uk w0))
            else Some o2"
  have "\<exists>o3. ?ph = Some o3 \<and> within_capacity out0 outChars o3"
  proof -
    from append_phonetic_within [OF w2 ext, of "uk w0"] obtain p1 where
      b1: "append_phonetic o2 outChars (uk w0) = Some p1" and v1: "within_capacity out0 outChars p1"
      by blast
    from append_phonetic_within [OF v1 ext, of "us w0"] obtain p2 where
      b2: "append_phonetic p1 outChars (us w0) = Some p2" and v2: "within_capacity out0 outChars p2"
      by blast
    from append_phonetic_within [OF w2 ext, of "us w0"] obtain p3 where
      b3: "append_phonetic o2 outChars (us w0) = Some p3" and v3: "within_capacity out0 outChars p3"
      by blast
    show ?thesis using w2 b1 v1 b2 v2 b3 v3 by simp
  qed
  then obtain o3 where a3: "?ph = Some o3" and w3: "within_capacity out0 outChars o3"
    by blast
  from AppendWithLimit_within [OF w3 ext, of "Some [SPACE, MIDDLE_DOT, SPACE]"] obtain o4 where
    a4: "AppendWithLimit o3 outChars (Some [SPACE, MIDDLE_DOT, SPACE]) = Some o4"
    and w4: "within_capacity out0 outChars o4"
    by blast
  from AppendCnTruncated_within [OF w4 ext, of cfg "trans w0"] obtain o5 where
    a5: "AppendCnTruncated cfg o4 outChars (trans w0) = Some o5"
    and w5: "within_capacity out0 outChars o5"
    by blast
  have "format_entry cfg w0 out outChars =
          (if WORD_SHOW_CHINESE cfg then
            (case trans w0 of
               None \<Rightarrow> Some o3
             | Some t \<Rightarrow> if first_char t = 0 then Some o3 else Some o5)
          else Some o3)"
    unfolding format_entry_def a1 a2 option.case a3 a4 a5 ..
  then show ?thesis using w3 w5 by (simp split: option.splits)
qed

lemma sint_of_nat_le: "sint (word_of_nat n :: 32 word) \<le> int n"
proof -
  define w where "w = (word_of_nat n :: 32 word)"
  have "unat w = n mod 2 ^ 32" unfolding w_def by (simp add: unat_of_nat)
  then have le: "unat w \<le> n" by simp
  have u: "uint w = int (unat w)" by (rule uint_nat)
  have "sint w \<le> int n"
  proof (cases "0 \<le> sint w")
    case True
    then have su: "sint w = uint w" by (rule sint_nonneg_uint)
    show ?thesis unfolding su u using le by (rule iffD2 [OF of_nat_le_iff])
  next
    case False
    have "0 \<le> int n" by (rule of_nat_0_le_iff)
    with False show ?thesis by linarith
  qed
  then show ?thesis unfolding w_def .
qed

lemma count_in_array_iff:
  "count_in_array s = (\<forall>ws. g_words s = Some ws \<longrightarrow> sint (g_wordCount s) \<le> int (length ws))"
  by (simp add: count_in_array_def split: option.splits)

lemma Init_count_in_array:
  assumes "count_in_array s"
  shows "count_in_array (snd (WordsDisplay_Init cfg e s))"
  using Init_cases [of cfg e s] assms
  by (auto simp: count_in_array_iff sint_of_nat_le)

lemma lazy_init_count_in_array:
  "count_in_array s \<Longrightarrow> count_in_array (lazy_init cfg e s)"
  by (simp add: lazy_init_def Init_count_in_array)

lemma SetCurrentIndex_count_in_array:
  "count_in_array s \<Longrightarrow> count_in_array (snd (SetCurrentIndex idx s))"
  by (auto simp: SetCurrentIndex_def count_in_array_iff Let_def)

text \<open>
  The array holds the entries counted in every store that the operations
  produce from the store of a starting program.
\<close>

lemma count_in_array_preserved:
  assumes "count_in_array s"
  shows "count_in_array (snd (WordsDisplay_Init cfg e s))"
    and "count_in_array (snd (WordsDisplay_Next cfg e now s))"
    and "count_in_array (snd (WordsDisplay_Tick cfg e now s))"
    and "count_in_array (WordsDisplay_Shutdown s)"
    and "count_in_array initial_store"
proof -
  show "count_in_array (snd (WordsDisplay_Init cfg e s))"
    using assms by (rule Init_count_in_array)
  have l: "count_in_array (lazy_init cfg e s)"
    using assms by (rule lazy_init_count_in_array)
  have c: "count_in_array (snd (SetCurrentIndex (g_currentIndex (lazy_init cfg e s) + 1) (lazy_init cfg e s)))"
    using l by (rule SetCurrentIndex_count_in_array)
  have d: "count_in_array (t\<lparr>g_nextSwitchTick := x\<rparr>) = count_in_array t" for t x
    by (simp add: count_in_array_iff)
  show "count_in_array (snd (WordsDisplay_Next cfg e now s))"
    using l c by (simp add: WordsDisplay_Next_def Let_def split_beta d)
  show "count_in_array (snd (WordsDisplay_Tick cfg e now s))"
    using l c assms by (simp add: WordsDisplay_Tick_def Let_def split_beta d)
  show "count_in_array (WordsDisplay_Shutdown s)"
    by (simp add: WordsDisplay_Shutdown_def FreeWords_def count_in_array_iff)
  show "count_in_array initial_store"
    by (simp add: initial_store_def count_in_array_iff)
qed

lemma entry_at_selected:
  assumes arr: "sint count \<le> int (length ws)"
    and lo: "\<not> idx <s 0" and hi: "\<not> count \<le>s idx"
  shows "\<exists>w. entry_at ws idx = Some w"
proof -
  from lo have "0 \<le> sint idx" by (simp add: word_sless_alt)
  moreover from hi have "sint idx < sint count" by (simp add: word_sle_eq)
  ultimately show ?thesis using arr by (simp add: entry_at_def)
qed

lemma first_store_within:
  assumes cap: "1 \<le> outChars" and ext: "outChars \<le> length buf"
  shows "\<exists>b0. store_at buf 0 [0] = Some b0 \<and> within_capacity buf outChars b0"
proof -
  from cap ext obtain c cs where buf: "buf = c # cs" by (cases buf) auto
  have st: "store_at buf 0 [0] = Some (0 # cs)" by (simp add: buf store_at_def)
  have "wcslen (0 # cs) = Some 0" by (simp add: wcslen_def cstr_def)
  moreover have "drop outChars (0 # cs) = drop outChars buf"
    using cap by (cases outChars) (simp_all add: buf)
  moreover have "0 < outChars" using cap by simp
  moreover have "length (0 # cs) = length buf" by (simp add: buf)
  ultimately have "within_capacity buf outChars (0 # cs)"
    by (intro within_capacityI)
  with st show ?thesis by blast
qed

text \<open>
  C1. Let the buffer have at least \<open>outChars\<close> elements, \<open>outChars\<close> being at
  least 1, and let the store hold the entries it counts. Then
  \<open>WordsDisplay_FormatSuffix\<close> completes with every access inside its array,
  whatever the configuration and the lengths of the entry's fields. The buffer
  it leaves has the elements from index \<open>outChars\<close> on untouched, and holds a
  string of at most \<open>outChars - 1\<close> characters with its terminator: four
  characters at most for a capacity of five.
\<close>

theorem FormatSuffix_within_capacity:
  assumes cap: "1 \<le> outChars" and ext: "outChars \<le> length buf"
    and arr: "count_in_array s"
  shows "\<exists>out' s'. WordsDisplay_FormatSuffix cfg e (Some buf) outChars s = Some (Some out', s')
           \<and> length out' = length buf
           \<and> drop outChars out' = drop outChars buf
           \<and> (\<exists>k. wcslen out' = Some k \<and> k \<le> outChars - 1)"
proof -
  from first_store_within [OF cap ext] obtain b0 where
    st: "store_at buf 0 [0] = Some b0" and w0: "within_capacity buf outChars b0"
    by blast
  have "\<exists>out' s'. WordsDisplay_FormatSuffix cfg e (Some buf) outChars s = Some (Some out', s')
           \<and> within_capacity buf outChars out'"
  proof (cases "WORD_DISPLAY_ENABLED cfg")
    case False
    then show ?thesis using cap st w0 by (simp add: WordsDisplay_FormatSuffix_def)
  next
    case True
    let ?s = "lazy_init cfg e s"
    have ca: "count_in_array ?s" using arr by (rule lazy_init_count_in_array)
    show ?thesis
    proof (cases "g_words ?s")
      case None
      then show ?thesis using cap st w0 True by (simp add: WordsDisplay_FormatSuffix_def)
    next
      case (Some ws)
      show ?thesis
      proof (cases "g_wordCount ?s \<le>s 0 \<or> g_currentIndex ?s <s 0
                     \<or> g_wordCount ?s \<le>s g_currentIndex ?s")
        case True
        then show ?thesis
          using cap st w0 \<open>WORD_DISPLAY_ENABLED cfg\<close> Some
          by (simp add: WordsDisplay_FormatSuffix_def)
      next
        case False
        from ca Some have "sint (g_wordCount ?s) \<le> int (length ws)"
          by (simp add: count_in_array_iff)
        with False obtain w where en: "entry_at ws (g_currentIndex ?s) = Some w"
          using entry_at_selected [of "g_wordCount ?s" ws "g_currentIndex ?s"] by blast
        from format_entry_within [OF w0 ext, of cfg w] obtain out1 where
          f: "format_entry cfg w b0 outChars = Some out1"
          and w1: "within_capacity buf outChars out1"
          by blast
        show ?thesis
          using cap st \<open>WORD_DISPLAY_ENABLED cfg\<close> Some False en f w1
          by (simp add: WordsDisplay_FormatSuffix_def)
      qed
    qed
  qed
  then obtain out' s' where
    r: "WordsDisplay_FormatSuffix cfg e (Some buf) outChars s = Some (Some out', s')"
    and w: "within_capacity buf outChars out'"
    by blast
  from w obtain k where "wcslen out' = Some k" and "k < outChars"
    and "length out' = length buf" and "drop outChars out' = drop outChars buf"
    by (rule within_capacityD)
  moreover from \<open>k < outChars\<close> have "k \<le> outChars - 1" by simp
  ultimately show ?thesis using r by blast
qed

theorem FormatSuffix_within_capacity_witness:
  "(1::nat) \<le> 5 \<and> 5 \<le> length [7, 7, 7, 7, 7, 7, 7 :: wchar] \<and> count_in_array sample_store
   \<and> WordsDisplay_FormatSuffix sample_config sample_env (Some [7, 7, 7, 7, 7, 7, 7]) 5 sample_store =
        Some (Some [0x20, 0x20, 0x61, 0x62, 0, 7, 7], sample_store)
   \<and> wcslen [0x20, 0x20, 0x61, 0x62, 0, 7, 7] = Some 4"
proof -
  have a: "(1::nat) \<le> 5" and b: "5 \<le> length [7, 7, 7, 7, 7, 7, 7 :: wchar]" by simp_all
  have c: "count_in_array sample_store" by (simp add: count_in_array_iff sample_store_def)
  have r: "WordsDisplay_FormatSuffix sample_config sample_env (Some [7, 7, 7, 7, 7, 7, 7]) 5 sample_store =
        Some (Some [0x20, 0x20, 0x61, 0x62, 0, 7, 7], sample_store)"
    by code_simp
  have l: "wcslen [0x20, 0x20, 0x61, 0x62, 0, 7, 7] = Some 4"
    by (simp add: wcslen_def cstr_def)
  from FormatSuffix_within_capacity [OF a b c, of sample_config sample_env]
  show ?thesis using a b c r l by simp
qed

lemma take_append_budget:
  "take r a @ take (r - length (take r a)) b = take r (a @ b)"
  by (simp add: min_def)

text \<open>
  C7. Let the translation be non-empty and shorter than \<open>2^31\<close> characters,
  and the buffer hold a string of \<open>cur\<close> characters inside its capacity.
  \<open>AppendCnTruncated\<close> appends, cut to the \<open>outChars - 1 - cur\<close> characters
  that the buffer still takes: the whole translation when the configured
  maximum is not positive; the first \<open>min(max, 240)\<close> characters and one
  ellipsis when the translation is longer than the maximum; the whole
  translation otherwise.
\<close>

theorem AppendCnTruncated_truncates:
  assumes nonempty: "first_char cn \<noteq> 0"
    and fits: "length (cstr cn) < 2 ^ 31"
    and len: "wcslen out = Some cur" and cur: "cur < outChars" and ext: "outChars \<le> length out"
  shows "\<exists>out'. AppendCnTruncated cfg out outChars (Some cn) = Some out'
           \<and> cstr out' = cstr out @ take (outChars - 1 - cur)
                (if sint (WORD_CHINESE_MAX_LEN cfg) \<le> 0 then cstr cn
                 else if sint (WORD_CHINESE_MAX_LEN cfg) < int (length (cstr cn))
                      then take (min (nat (sint (WORD_CHINESE_MAX_LEN cfg))) 240) (cstr cn) @ [ELLIPSIS]
                 else cstr cn)"
proof -
  let ?max = "WORD_CHINESE_MAX_LEN cfg"
  let ?r = "outChars - 1 - cur"
  let ?a = "take (min (nat (sint ?max)) 240) (cstr cn)"
  have sl: "sint (int_of_size_t (length (cstr cn))) = int (length (cstr cn))"
    unfolding int_of_size_t_def using fits by (rule sint_of_nat_small)
  have cmp: "(int_of_size_t (length (cstr cn)) \<le>s ?max) = (int (length (cstr cn)) \<le> sint ?max)"
    by (simp add: word_sle_eq sl)
  have m0: "(?max \<le>s 0) = (sint ?max \<le> 0)" by (simp add: word_sle_eq)
  show ?thesis
  proof (cases "sint ?max \<le> 0 \<or> int (length (cstr cn)) \<le> sint ?max")
    case True
    from AppendWithLimit_content [OF len cur ext, of cn] obtain out1 where
      "AppendWithLimit out outChars (Some cn) = Some out1"
      "cstr out1 = cstr out @ take ?r (cstr cn)"
      by blast
    then show ?thesis
      using True nonempty by (auto simp: AppendCnTruncated_unfold cmp m0)
  next
    case False
    from AppendWithLimit_content [OF len cur ext, of ?a] obtain out1 where
      a1: "AppendWithLimit out outChars (Some ?a) = Some out1"
      and c1: "cstr out1 = cstr out @ take ?r (cstr ?a)"
      and w1: "wcslen out1 = Some (cur + length (take ?r (cstr ?a)))"
      and l1: "length out1 = length out"
      by blast
    have za: "cstr ?a = ?a"
      using cstr_zero_free [of cn] by (intro cstr_id) (auto dest: in_set_takeD)
    define x where "x = length (take ?r (cstr ?a))"
    have "x \<le> ?r" unfolding x_def by simp
    with cur have "cur + x < outChars" by arith
    then have cur1: "cur + length (take ?r (cstr ?a)) < outChars"
      unfolding x_def .
    from ext l1 have ext1: "outChars \<le> length out1" by simp
    from AppendWithLimit_content [OF w1 cur1 ext1, of "[ELLIPSIS]"] obtain out2 where
      a2: "AppendWithLimit out1 outChars (Some [ELLIPSIS]) = Some out2"
      and c2: "cstr out2 = cstr out1
                 @ take (outChars - 1 - (cur + length (take ?r (cstr ?a)))) (cstr [ELLIPSIS])"
      by blast
    have ze: "cstr [ELLIPSIS] = [ELLIPSIS]" by (simp add: cstr_def ELLIPSIS_def)
    have "outChars - 1 - (cur + length (take ?r ?a)) = ?r - length (take ?r ?a)" by simp
    then have "cstr out2 = cstr out @ (take ?r ?a @ take (?r - length (take ?r ?a)) [ELLIPSIS])"
      using c1 c2 by (simp only: za ze append_assoc)
    then have "cstr out2 = cstr out @ take ?r (?a @ [ELLIPSIS])"
      by (simp only: take_append_budget)
    moreover have "AppendCnTruncated cfg out outChars (Some cn) = Some out2"
      using False nonempty a1 a2 by (simp add: AppendCnTruncated_unfold cmp m0)
    ultimately show ?thesis using False by auto
  qed
qed

theorem AppendCnTruncated_truncates_witness:
  "first_char [0x653E, 0x5F03, 0xFF1B, 0x629B, 0x5F03] \<noteq> 0
   \<and> length (cstr [0x653E, 0x5F03, 0xFF1B, 0x629B, 0x5F03]) < 2 ^ 31
   \<and> wcslen [0x20, 0, 7, 7, 7, 7, 7, 7] = Some 1 \<and> (1::nat) < 8
   \<and> 8 \<le> length [0x20, 0, 7, 7, 7, 7, 7, 7 :: wchar]
   \<and> AppendCnTruncated sample_config [0x20, 0, 7, 7, 7, 7, 7, 7] 8
        (Some [0x653E, 0x5F03, 0xFF1B, 0x629B, 0x5F03]) =
      Some [0x20, 0x653E, 0x5F03, ELLIPSIS, 0, 7, 7, 7]"
proof -
  have a: "first_char [0x653E, 0x5F03, 0xFF1B, 0x629B, 0x5F03] \<noteq> 0"
    by (simp add: first_char_def)
  have b: "length (cstr [0x653E, 0x5F03, 0xFF1B, 0x629B, 0x5F03]) < 2 ^ 31"
    by (simp add: cstr_def)
  have c: "wcslen [0x20, 0, 7, 7, 7, 7, 7, 7] = Some 1"
    by (simp add: wcslen_def cstr_def)
  have d: "(1::nat) < 8" and f: "8 \<le> length [0x20, 0, 7, 7, 7, 7, 7, 7 :: wchar]" by simp_all
  have r: "AppendCnTruncated sample_config [0x20, 0, 7, 7, 7, 7, 7, 7] 8
        (Some [0x653E, 0x5F03, 0xFF1B, 0x629B, 0x5F03]) =
      Some [0x20, 0x653E, 0x5F03, ELLIPSIS, 0, 7, 7, 7]"
    by code_simp
  from AppendCnTruncated_truncates [OF a b c d f, of sample_config]
  show ?thesis using a b c d f r by simp
qed

section \<open>The disabled feature\<close>

text \<open>
  C10. With the feature disabled, \<open>WordsDisplay_Tick\<close> returns \<open>FALSE\<close> and
  \<open>WordsDisplay_FormatSuffix\<close> stores the terminator at \<open>out[0]\<close> and nothing
  else (nothing at all for a \<open>NULL\<close> pointer or a capacity of zero). Both
  return before the lazy initialization: the store they leave is the store
  they found, whatever the resource provider would have supplied.
\<close>

theorem disabled_is_inert:
  assumes "\<not> WORD_DISPLAY_ENABLED cfg"
  shows "WordsDisplay_Tick cfg e now s = (False, s)
       \<and> (0 < outChars \<and> buf \<noteq> [] \<longrightarrow>
            WordsDisplay_FormatSuffix cfg e (Some buf) outChars s = Some (Some (buf[0 := 0]), s))
       \<and> WordsDisplay_FormatSuffix cfg e (Some buf) 0 s = Some (Some buf, s)
       \<and> WordsDisplay_FormatSuffix cfg e None outChars s = Some (None, s)"
  using assms
  by (cases buf) (simp_all add: WordsDisplay_Tick_def WordsDisplay_FormatSuffix_def store_at_def)

theorem disabled_is_inert_witness:
  "\<not> WORD_DISPLAY_ENABLED (sample_config\<lparr>WORD_DISPLAY_ENABLED := False\<rparr>)
   \<and> WordsDisplay_Tick (sample_config\<lparr>WORD_DISPLAY_ENABLED := False\<rparr>) sample_env 5000
         initial_store = (False, initial_store)
   \<and> (0::nat) < 3 \<and> [7, 7, 7] \<noteq> ([] :: wchar list)
   \<and> WordsDisplay_FormatSuffix (sample_config\<lparr>WORD_DISPLAY_ENABLED := False\<rparr>) sample_env
         (Some [7, 7, 7]) 3 initial_store = Some (Some [0, 7, 7], initial_store)"
  using disabled_is_inert
    [of "sample_config\<lparr>WORD_DISPLAY_ENABLED := False\<rparr>" sample_env 5000 initial_store 3 "[7, 7, 7]"]
  by (simp add: sample_config_def)

end
